theory Spec2Isabelle
  imports Main
begin

section \<open>The paginated crawler of \<^verbatim>\<open>eastmoney_crawler.py\<close>\<close>

text \<open>
  A shallow embedding of \<^verbatim>\<open>InfinitePageCrawler\<close>: the resolution of the page URL
  from the template, \<^verbatim>\<open>fetch_page\<close> with its retries and back-off, and the loop of
  \<^verbatim>\<open>crawl\<close>. Python integers are \<open>int\<close>, strings are \<open>string\<close>, the collaborators
  the crawler calls (the HTTP session, the parser, the next-page test, the file
  system, the random delay) are functions of an environment record, and an exception
  raised by one of them is a value of type \<open>exn\<close>.
\<close>

subsection \<open>Exceptions\<close>

text \<open>
  The loop of \<^verbatim>\<open>crawl\<close> has two handlers: \<^verbatim>\<open>except KeyboardInterrupt\<close> and
  \<^verbatim>\<open>except Exception\<close>. \<open>Exception\<close> stands for every exception of that class
  (\<^verbatim>\<open>KeyError\<close>, \<^verbatim>\<open>ValueError\<close>, \<^verbatim>\<open>ZeroDivisionError\<close>, \<^verbatim>\<open>OSError\<close>, ...).
\<close>

datatype exn = KeyboardInterrupt | Exception

subsection \<open>Python strings\<close>

text \<open>
  \<^verbatim>\<open>str(n)\<close> for an integer: its decimal digits, with a minus sign when negative
  (\<open>str_digits\<close> is for the absolute value).
\<close>

definition digit_char :: "nat \<Rightarrow> char" where
  "digit_char d = ''0123456789'' ! (d mod 10)"

function str_digits :: "int \<Rightarrow> string" where
  "str_digits i =
     (if i < 10 then [digit_char (nat i)]
      else str_digits (i div 10) @ [digit_char (nat (i mod 10))])"
  by pat_completeness auto
termination
  by (relation "measure nat") auto

definition str_int :: "int \<Rightarrow> string" where
  "str_int i = (if i < 0 then CHR ''-'' # str_digits (- i) else str_digits i)"

text \<open>\<^verbatim>\<open>sub in s\<close>: \<open>sub\<close> occurs in \<open>s\<close> as a contiguous run of characters.\<close>

fun starts_with :: "string \<Rightarrow> string \<Rightarrow> bool" where
  "starts_with s [] = True"
| "starts_with [] (c # sub) = False"
| "starts_with (d # s) (c # sub) = (d = c \<and> starts_with s sub)"

fun str_contains :: "string \<Rightarrow> string \<Rightarrow> bool" where
  "str_contains sub [] = (sub = [])"
| "str_contains sub (c # s) = (starts_with (c # s) sub \<or> str_contains sub s)"

text \<open>
  \<^verbatim>\<open>s.replace(old, new)\<close>: every occurrence of \<open>old\<close>, found from the left and not
  overlapping, is replaced by \<open>new\<close>. (With an empty \<open>old\<close> Python puts \<open>new\<close> before
  every character and at the end.)
\<close>

function str_replace :: "string \<Rightarrow> string \<Rightarrow> string \<Rightarrow> string" where
  "str_replace old new s =
     (if old = [] then new @ concat (map (\<lambda>c. c # new) s)
      else if starts_with s old then new @ str_replace old new (drop (length old) s)
      else (case s of [] \<Rightarrow> [] | c # cs \<Rightarrow> c # str_replace old new cs))"
  by pat_completeness auto
termination
proof (relation "measure (\<lambda>(old, new, s). length s)")
  show "wf (measure (\<lambda>(old, new, s). length s))"
    by simp
next
  fix old new s :: string
  assume "old \<noteq> []" and "starts_with s old"
  then have "s \<noteq> []"
    by (cases old; cases s) simp_all
  with \<open>old \<noteq> []\<close>
  show "((old, new, drop (length old) s), (old, new, s)) \<in> measure (\<lambda>(old, new, s). length s)"
    by simp
next
  fix old new s :: string and c cs
  assume "s = c # cs"
  then show "((old, new, cs), (old, new, s)) \<in> measure (\<lambda>(old, new, s). length s)"
    by simp
qed

subsection \<open>\<^verbatim>\<open>str.format(page=N)\<close>\<close>

text \<open>
  \<^verbatim>\<open>base_url.format(page=page_num)\<close> reads the template from the left. Outside a
  replacement field, \<^verbatim>\<open>{{\<close> and \<^verbatim>\<open>}}\<close> stand for one brace, a lone \<^verbatim>\<open>}\<close> and a
  \<^verbatim>\<open>{\<close> at the very end raise \<^verbatim>\<open>ValueError\<close>. A field \<^verbatim>\<open>{name}\<close> is the decimal
  page number when \<open>name\<close> is \<^verbatim>\<open>page\<close>; any other plain name raises (\<^verbatim>\<open>KeyError\<close>,
  or \<^verbatim>\<open>IndexError\<close> for an empty or numeric name, since \<^verbatim>\<open>page\<close> is the only
  argument); a field that is not closed raises \<^verbatim>\<open>ValueError\<close>. The first of these
  events decides. A field with a conversion, a format specification, an attribute or
  an index (one of the characters \<^verbatim>\<open>! : . [\<close>, or a nested \<^verbatim>\<open>{\<close>) is outside what
  is written out here: the scan stops there with \<open>Beyond\<close>, and the result is what the
  parameter \<open>beyond\<close> (Python's own \<^verbatim>\<open>format\<close> on that template) says.
\<close>

datatype fmt_result = Formatted string | Raised | Beyond

datatype fmt_mode = Literal | Field string

fun fmt_emit :: "string \<Rightarrow> fmt_result \<Rightarrow> fmt_result" where
  "fmt_emit s (Formatted t) = Formatted (s @ t)"
| "fmt_emit s Raised = Raised"
| "fmt_emit s Beyond = Beyond"

fun fmt_scan :: "fmt_mode \<Rightarrow> int \<Rightarrow> string \<Rightarrow> fmt_result" where
  "fmt_scan Literal n [] = Formatted []"
| "fmt_scan (Field name) n [] = Raised"
| "fmt_scan Literal n [c] =
     (if c = CHR ''{'' \<or> c = CHR ''}'' then Raised else Formatted [c])"
| "fmt_scan Literal n (c # d # s) =
     (if c = CHR ''}'' then (if d = CHR ''}'' then fmt_emit ''}'' (fmt_scan Literal n s) else Raised)
      else if c = CHR ''{'' then
        (if d = CHR ''{'' then fmt_emit ''{'' (fmt_scan Literal n s)
         else fmt_scan (Field []) n (d # s))
      else fmt_emit [c] (fmt_scan Literal n (d # s)))"
| "fmt_scan (Field name) n (c # s) =
     (if c = CHR ''}'' then
        (if name = ''page'' then fmt_emit (str_int n) (fmt_scan Literal n s) else Raised)
      else if c \<in> set ''{!:.['' then Beyond
      else fmt_scan (Field (name @ [c])) n s)"

definition str_format :: "(string \<Rightarrow> int \<Rightarrow> exn + string) \<Rightarrow> string \<Rightarrow> int \<Rightarrow> exn + string" where
  "str_format beyond template n =
     (case fmt_scan Literal n template of
        Formatted s \<Rightarrow> Inr s
      | Raised \<Rightarrow> Inl Exception
      | Beyond \<Rightarrow> beyond template n)"

subsection \<open>URL resolution (lines 149--155 of \<^verbatim>\<open>crawl\<close>)\<close>

definition build_url :: "(string \<Rightarrow> int \<Rightarrow> exn + string) \<Rightarrow> string \<Rightarrow> int \<Rightarrow> exn + string" where
  "build_url beyond base_url page_num =
     (if str_contains ''{page}'' base_url then str_format beyond base_url page_num
      else if str_contains ''?page='' base_url then
        Inr (str_replace ''page=1'' (''page='' @ str_int page_num) base_url)
      else Inr (base_url @ ''?page='' @ str_int page_num))"

subsection \<open>\<^verbatim>\<open>fetch_page\<close>\<close>

text \<open>
  One call of \<^verbatim>\<open>self.session.get(url, timeout=10)\<close> followed by
  \<^verbatim>\<open>raise_for_status()\<close> gives the body, raises a \<^verbatim>\<open>RequestException\<close> (the
  failure of the fetcher's contract: connection error, timeout, HTTP error status),
  or raises something \<^verbatim>\<open>fetch_page\<close> has no handler for (the operator's
  \<^verbatim>\<open>KeyboardInterrupt\<close> while the request blocks).
\<close>

datatype fetch_outcome = Response string | RequestException | Raises exn

text \<open>What \<^verbatim>\<open>fetch_page\<close> does besides returning: its log lines and its sleeps.\<close>

datatype fetch_event =
    Warning nat  \<comment> \<open>\<^verbatim>\<open>logger.warning\<close>: retry number \<open>retry_count + 1\<close>\<close>
  | Sleep nat  \<comment> \<open>\<^verbatim>\<open>time.sleep(2 ** retry_count)\<close>, in seconds\<close>
  | Error  \<comment> \<open>\<^verbatim>\<open>logger.error\<close>: the retries are used up\<close>

text \<open>
  \<open>session_get url i\<close> is the outcome of the \<open>i\<close>-th request of this call chain
  (counted from 0); the recursive call sees the rest of them. \<open>retry_count\<close> starts at
  0 and only grows, \<open>max_retries\<close> is whatever integer the constructor was given. The
  result is \<open>Inr (Some text)\<close> for \<^verbatim>\<open>return response.text\<close>, \<open>Inr None\<close> for
  \<^verbatim>\<open>return None\<close>, and \<open>Inl x\<close> when \<open>x\<close> leaves \<^verbatim>\<open>fetch_page\<close>.
\<close>

function fetch_page ::
  "int \<Rightarrow> (string \<Rightarrow> nat \<Rightarrow> fetch_outcome) \<Rightarrow> string \<Rightarrow> nat \<Rightarrow> (exn + string option) \<times> fetch_event list"
where
  "fetch_page max_retries session_get url retry_count =
     (case session_get url 0 of
        Response text \<Rightarrow> (Inr (Some text), [])
      | Raises x \<Rightarrow> (Inl x, [])
      | RequestException \<Rightarrow>
          (if int retry_count < max_retries then
             (case fetch_page max_retries (\<lambda>u i. session_get u (Suc i)) url (Suc retry_count) of
                (r, evs) \<Rightarrow> (r, Warning (retry_count + 1) # Sleep (2 ^ retry_count) # evs))
           else (Inr None, [Error])))"
  by pat_completeness auto
termination
  by (relation "measure (\<lambda>(max_retries, session_get, url, retry_count). nat (max_retries - int retry_count))")
    auto

fun warnings :: "fetch_event list \<Rightarrow> nat list" where
  "warnings [] = []"
| "warnings (Warning k # evs) = k # warnings evs"
| "warnings (e # evs) = warnings evs"

fun sleeps :: "fetch_event list \<Rightarrow> nat list" where
  "sleeps [] = []"
| "sleeps (Sleep d # evs) = d # sleeps evs"
| "sleeps (e # evs) = sleeps evs"

declare str_digits.simps [simp del]
declare str_replace.simps [simp del]
declare fetch_page.simps [simp del]

subsection \<open>The data of \<^verbatim>\<open>crawl\<close>\<close>

text \<open>
  \<^verbatim>\<open>parse_page\<close> returns a dict. The parser of the class gives it the keys
  \<^verbatim>\<open>links\<close> (each a text and a URL), \<^verbatim>\<open>articles\<close> (each a title and a content) and
  \<^verbatim>\<open>page_size\<close>. A parser put in its place may leave a key out, as \<^verbatim>\<open>custom_parse\<close>
  of \<^verbatim>\<open>example_usage\<close> leaves out \<^verbatim>\<open>links\<close>; reading that key raises
  \<^verbatim>\<open>KeyError\<close>. So each key is optional in what the parser returns.
\<close>

record parsed =
  key_links :: "(string \<times> string) list option"
  key_articles :: "(string \<times> string) list option"
  key_page_size :: "nat option"

text \<open>
  The same dict once \<^verbatim>\<open>crawl\<close> has read its two lists, which is how it is when it is
  appended to \<^verbatim>\<open>all_data\<close>, in a dict with the keys \<^verbatim>\<open>page\<close>, \<^verbatim>\<open>url\<close> and
  \<^verbatim>\<open>data\<close>.
\<close>

record page_data =
  links :: "(string \<times> string) list"
  articles :: "(string \<times> string) list"
  page_size :: "nat option"

record page_result =
  page :: int
  url :: string
  data :: page_data

text \<open>
  \<^verbatim>\<open>self.stats\<close>, as \<^verbatim>\<open>__init__\<close> creates it. Its two timestamps are wall-clock
  readings that only \<^verbatim>\<open>print_stats\<close> looks at; they are left out.
\<close>

record stats =
  pages_crawled :: int
  total_data :: int
  errors :: int

definition init_stats :: stats where
  "init_stats = \<lparr>pages_crawled = 0, total_data = 0, errors = 0\<rparr>"

text \<open>The constructor's and \<^verbatim>\<open>crawl\<close>'s arguments that the loop reads.\<close>

record config =
  base_url :: string
  max_retries :: int
  start_page :: int
  max_empty_pages :: int
  save_interval :: int

text \<open>The dict \<^verbatim>\<open>save_data\<close> is given: \<^verbatim>\<open>{'pages': ...}\<close> or \<^verbatim>\<open>{'all_data': ...}\<close>.\<close>

datatype payload = Pages "page_result list" | All_data "page_result list"

fun payload_items :: "payload \<Rightarrow> page_result list" where
  "payload_items (Pages rs) = rs"
| "payload_items (All_data rs) = rs"

datatype soup = Soup string

text \<open>
  The collaborators. Each may raise; \<open>session_get e p\<close> are the answers of the network
  while page \<open>p\<close> is fetched (a run visits a page number at most once, so this is every
  behaviour of the network), \<open>random_delay e p\<close> is the sleep after page \<open>p\<close>, and
  \<open>write_file\<close> is \<^verbatim>\<open>open\<close> and \<^verbatim>\<open>json.dump\<close> on a file name.
\<close>

record env =
  format_beyond :: "string \<Rightarrow> int \<Rightarrow> exn + string"
  session_get :: "int \<Rightarrow> string \<Rightarrow> nat \<Rightarrow> fetch_outcome"
  BeautifulSoup :: "string \<Rightarrow> exn + soup"
  parse_page :: "string \<Rightarrow> exn + parsed"
  has_next_page :: "soup \<Rightarrow> int \<Rightarrow> exn + bool"
  write_file :: "string \<Rightarrow> payload \<Rightarrow> exn + unit"
  random_delay :: "int \<Rightarrow> exn + unit"

text \<open>The calls the loop makes on them, in order: what an observer of a run sees.\<close>

datatype call =
    Call_fetch_page string "fetch_event list"
  | Call_BeautifulSoup
  | Call_parse_page
  | Call_save_data payload string
  | Call_has_next_page int
  | Call_random_delay

fun saved_batches :: "call list \<Rightarrow> page_result list list" where
  "saved_batches [] = []"
| "saved_batches (Call_save_data p label # cs) = payload_items p # saved_batches cs"
| "saved_batches (c # cs) = saved_batches cs"

text \<open>The local variables of \<^verbatim>\<open>crawl\<close>, \<^verbatim>\<open>self.stats\<close>, and the calls made so far.\<close>

record crawl_state =
  page_num :: int
  empty_pages_count :: int
  all_data :: "page_result list"
  stats :: stats
  calls :: "call list"

text \<open>
  How an iteration leaves the loop body. The source has five \<^verbatim>\<open>break\<close>s, told apart
  by their log lines: after \<open>max_empty_pages\<close> failed or empty pages in a row
  (\<open>TERMINATED_NO_CONTENT\<close>, lines 166 and 180), on the last page (line 201), at the
  page limit (line 212), on \<^verbatim>\<open>KeyboardInterrupt\<close> (line 216). \<open>RUNNING\<close> is the next
  iteration.
\<close>

datatype status =
    RUNNING
  | TERMINATED_NO_CONTENT
  | TERMINATED_LAST_PAGE
  | TERMINATED_SAFETY_LIMIT
  | TERMINATED_INTERRUPTED

datatype flow = Flow status | Raise exn

subsection \<open>\<^verbatim>\<open>save_data\<close> and the slice \<^verbatim>\<open>all_data[-save_interval:]\<close>\<close>

definition save_data :: "env \<Rightarrow> payload \<Rightarrow> string \<Rightarrow> exn + unit" where
  "save_data e d label = write_file e (''page_'' @ label @ ''_data.json'') d"

text \<open>\<^verbatim>\<open>xs[i:]\<close>: a negative \<open>i\<close> counts from the end, and either way the start is clipped.\<close>

definition py_slice_from :: "int \<Rightarrow> 'a list \<Rightarrow> 'a list" where
  "py_slice_from i xs = (if i < 0 then drop (nat (int (length xs) + i)) xs else drop (nat i) xs)"

subsection \<open>One iteration of the loop\<close>

text \<open>Lines 198--212: the next-page test, the delay, the page limit.\<close>

definition check_next :: "env \<Rightarrow> soup \<Rightarrow> crawl_state \<Rightarrow> flow \<times> crawl_state" where
  "check_next e sp s =
     (let s1 = s\<lparr>calls := calls s @ [Call_has_next_page (page_num s)]\<rparr> in
      case has_next_page e sp (page_num s) of
        Inl x \<Rightarrow> (Raise x, s1)
      | Inr False \<Rightarrow> (Flow TERMINATED_LAST_PAGE, s1)
      | Inr True \<Rightarrow>
          (let s2 = s1\<lparr>calls := calls s1 @ [Call_random_delay]\<rparr> in
           case random_delay e (page_num s) of
             Inl x \<Rightarrow> (Raise x, s2)
           | Inr u \<Rightarrow>
               (let s3 = s2\<lparr>page_num := page_num s2 + 1\<rparr> in
                if page_num s3 > 10000000 then (Flow TERMINATED_SAFETY_LIMIT, s3)
                else (Flow RUNNING, s3))))"

text \<open>
  Lines 191--212, after a page was kept: the periodic save, then the next-page test.
  \<^verbatim>\<open>page_num % save_interval\<close> raises \<^verbatim>\<open>ZeroDivisionError\<close> when \<open>save_interval\<close> is
  0; for any other divisor Python's \<^verbatim>\<open>%\<close> and \<^verbatim>\<open>//\<close> are \<open>mod\<close> and \<open>div\<close> on
  \<open>int\<close>.
\<close>

definition save_and_next :: "config \<Rightarrow> env \<Rightarrow> soup \<Rightarrow> crawl_state \<Rightarrow> flow \<times> crawl_state" where
  "save_and_next c e sp s =
     (if save_interval c = 0 then (Raise Exception, s)
      else if page_num s mod save_interval c = 0 then
        (let batch = Pages (py_slice_from (- save_interval c) (all_data s));
             label = ''batch_'' @ str_int (page_num s div save_interval c);
             s1 = s\<lparr>calls := calls s @ [Call_save_data batch label]\<rparr> in
         case save_data e batch label of
           Inl x \<Rightarrow> (Raise x, s1)
         | Inr v \<Rightarrow> check_next e sp s1)
      else check_next e sp s)"

text \<open>
  Line 175, \<^verbatim>\<open>not data['articles'] and not data['links']\<close>: the articles are read
  first, and the links only when there are no articles.
\<close>

definition no_records :: "parsed \<Rightarrow> exn + bool" where
  "no_records d =
     (case key_articles d of
        None \<Rightarrow> Inl Exception
      | Some arts \<Rightarrow>
          if arts \<noteq> [] then Inr False
          else (case key_links d of None \<Rightarrow> Inl Exception | Some lks \<Rightarrow> Inr (lks = [])))"

text \<open>
  Lines 174--196: the page's data is judged, counted and kept. In the \<^verbatim>\<open>else\<close>
  branch the statements run one after the other: the counter is reset (line 182),
  \<^verbatim>\<open>pages_crawled\<close> grows (line 183), then line 184 reads both lists, and a missing
  key raises there, before \<^verbatim>\<open>total_data\<close> and \<^verbatim>\<open>all_data\<close> are touched.
\<close>

definition process_data :: "config \<Rightarrow> env \<Rightarrow> string \<Rightarrow> soup \<Rightarrow> parsed \<Rightarrow> crawl_state \<Rightarrow> flow \<times> crawl_state" where
  "process_data c e u sp d s =
     (case no_records d of
        Inl x \<Rightarrow> (Raise x, s)
      | Inr True \<Rightarrow>
          (let s1 = s\<lparr>empty_pages_count := empty_pages_count s + 1\<rparr> in
           if empty_pages_count s1 \<ge> max_empty_pages c then (Flow TERMINATED_NO_CONTENT, s1)
           else check_next e sp s1)
      | Inr False \<Rightarrow>
          (let s1 = s\<lparr>empty_pages_count := 0\<rparr>;
               s2 = s1\<lparr>stats := (stats s1)\<lparr>pages_crawled := pages_crawled (stats s1) + 1\<rparr>\<rparr> in
           case key_articles d of
             None \<Rightarrow> (Raise Exception, s2)
           | Some arts \<Rightarrow>
               (case key_links d of
                  None \<Rightarrow> (Raise Exception, s2)
                | Some lks \<Rightarrow>
                    (let s3 = s2\<lparr>stats := (stats s2)\<lparr>total_data :=
                                 total_data (stats s2) + (int (length arts) + int (length lks))\<rparr>\<rparr>;
                         s4 = s3\<lparr>all_data := all_data s3 @
                                 [\<lparr>page = page_num s, url = u,
                                   data = \<lparr>links = lks, articles = arts, page_size = key_page_size d\<rparr>\<rparr>]\<rparr>
                     in save_and_next c e sp s4))))"

text \<open>
  Lines 161--168: \<^verbatim>\<open>if not html\<close> holds for \<^verbatim>\<open>None\<close> (the retries are used up) and
  for an empty body.
\<close>

definition no_html :: "config \<Rightarrow> crawl_state \<Rightarrow> flow \<times> crawl_state" where
  "no_html c s =
     (let s1 = s\<lparr>empty_pages_count := empty_pages_count s + 1\<rparr> in
      if empty_pages_count s1 \<ge> max_empty_pages c then (Flow TERMINATED_NO_CONTENT, s1)
      else (Flow RUNNING, s1\<lparr>page_num := page_num s1 + 1\<rparr>))"

text \<open>Lines 170--172: the soup for the next-page test, then the parser.\<close>

definition parse_html :: "config \<Rightarrow> env \<Rightarrow> string \<Rightarrow> string \<Rightarrow> crawl_state \<Rightarrow> flow \<times> crawl_state" where
  "parse_html c e u html s =
     (let s1 = s\<lparr>calls := calls s @ [Call_BeautifulSoup]\<rparr> in
      case BeautifulSoup e html of
        Inl x \<Rightarrow> (Raise x, s1)
      | Inr sp \<Rightarrow>
          (let s2 = s1\<lparr>calls := calls s1 @ [Call_parse_page]\<rparr> in
           case parse_page e html of
             Inl x \<Rightarrow> (Raise x, s2)
           | Inr d \<Rightarrow> process_data c e u sp d s2))"

text \<open>The body of the \<^verbatim>\<open>try\<close>, lines 149--212, with the state where it was left.\<close>

definition crawl_try :: "config \<Rightarrow> env \<Rightarrow> crawl_state \<Rightarrow> flow \<times> crawl_state" where
  "crawl_try c e s =
     (case build_url (format_beyond e) (base_url c) (page_num s) of
        Inl x \<Rightarrow> (Raise x, s)
      | Inr u \<Rightarrow>
          (case fetch_page (max_retries c) (session_get e (page_num s)) u 0 of
             (r, evs) \<Rightarrow>
               (let s1 = s\<lparr>calls := calls s @ [Call_fetch_page u evs]\<rparr> in
                case r of
                  Inl x \<Rightarrow> (Raise x, s1)
                | Inr None \<Rightarrow> no_html c s1
                | Inr (Some html) \<Rightarrow>
                    (if html = [] then no_html c s1 else parse_html c e u html s1))))"

text \<open>
  The two handlers, lines 214--220: \<^verbatim>\<open>KeyboardInterrupt\<close> breaks, any other
  exception is counted in \<^verbatim>\<open>self.stats['errors']\<close> and the page number advances.
\<close>

definition crawl_iter :: "config \<Rightarrow> env \<Rightarrow> crawl_state \<Rightarrow> status \<times> crawl_state" where
  "crawl_iter c e s =
     (case crawl_try c e s of
        (Flow st, s') \<Rightarrow> (st, s')
      | (Raise KeyboardInterrupt, s') \<Rightarrow> (TERMINATED_INTERRUPTED, s')
      | (Raise Exception, s') \<Rightarrow>
          (RUNNING, s'\<lparr>stats := (stats s')\<lparr>errors := errors (stats s') + 1\<rparr>,
                       page_num := page_num s' + 1\<rparr>))"

subsection \<open>The loop and \<^verbatim>\<open>crawl\<close>\<close>

text \<open>
  \<^verbatim>\<open>while True\<close> may run forever (a parser that raises on every page never reaches a
  \<^verbatim>\<open>break\<close>), so the loop takes fuel: \<open>None\<close> is a run that is still going after
  \<open>fuel\<close> iterations.
\<close>

fun crawl_loop :: "nat \<Rightarrow> config \<Rightarrow> env \<Rightarrow> crawl_state \<Rightarrow> (status \<times> crawl_state) option" where
  "crawl_loop 0 c e s = None"
| "crawl_loop (Suc fuel) c e s =
     (case crawl_iter c e s of
        (RUNNING, s') \<Rightarrow> crawl_loop fuel c e s'
      | (st, s') \<Rightarrow> Some (st, s'))"

text \<open>
  The run after \<open>n\<close> iterations from \<open>s\<close>: the state with which the next
  iteration starts while the status is \<open>RUNNING\<close>, the state of the \<^verbatim>\<open>break\<close>
  from then on.
\<close>

fun crawl_iterate :: "nat \<Rightarrow> config \<Rightarrow> env \<Rightarrow> crawl_state \<Rightarrow> status \<times> crawl_state" where
  "crawl_iterate 0 c e s = (RUNNING, s)"
| "crawl_iterate (Suc n) c e s =
     (case crawl_iter c e s of
        (RUNNING, s') \<Rightarrow> crawl_iterate n c e s'
      | (st, s') \<Rightarrow> (st, s'))"

text \<open>Lines 143--145: the state at the first iteration, for a crawler whose statistics are \<open>st\<close>.\<close>

definition crawl_start :: "config \<Rightarrow> stats \<Rightarrow> crawl_state" where
  "crawl_start c st =
     \<lparr>page_num = start_page c, empty_pages_count = 0, all_data = [], stats = st, calls = []\<rparr>"

text \<open>
  Lines 222--224: after the loop everything is saved once more, under the label
  \<^verbatim>\<open>final\<close>, outside the \<^verbatim>\<open>try\<close>: an exception of this \<^verbatim>\<open>save_data\<close> leaves \<^verbatim>\<open>crawl\<close>.
\<close>

definition final_save :: "env \<Rightarrow> status \<times> crawl_state \<Rightarrow> (exn + status) \<times> crawl_state" where
  "final_save e r =
     (case r of (st, s) \<Rightarrow>
        if all_data s \<noteq> [] then
          (let s1 = s\<lparr>calls := calls s @ [Call_save_data (All_data (all_data s)) ''final'']\<rparr> in
           case save_data e (All_data (all_data s)) ''final'' of
             Inl x \<Rightarrow> (Inl x, s1)
           | Inr u \<Rightarrow> (Inr st, s1))
        else (Inr st, s))"

definition crawl :: "nat \<Rightarrow> config \<Rightarrow> env \<Rightarrow> stats \<Rightarrow> ((exn + status) \<times> crawl_state) option" where
  "crawl fuel c e st = map_option (final_save e) (crawl_loop fuel c e (crawl_start c st))"

subsection \<open>What a page yields\<close>

text \<open>
  The part of an iteration that decides how the page counts: the URL, the fetch, the
  soup, the parser and the two lists of its dict, in the order of lines 149--184.
  \<open>Not_counted\<close> is an exception before the page's data was judged. \<open>Articles_only\<close>
  is a page whose data has articles and no key \<^verbatim>\<open>links\<close>: it is judged to have
  records at line 175, and line 184 raises.
\<close>

datatype yield = Not_counted | Fetch_failed | Zero_records | Articles_only | Records page_result

definition data_yield :: "int \<Rightarrow> string \<Rightarrow> parsed \<Rightarrow> yield" where
  "data_yield p u d =
     (case key_articles d of
        None \<Rightarrow> Not_counted
      | Some arts \<Rightarrow>
          (case key_links d of
             None \<Rightarrow> if arts = [] then Not_counted else Articles_only
           | Some lks \<Rightarrow>
               if arts = [] \<and> lks = [] then Zero_records
               else Records \<lparr>page = p, url = u,
                      data = \<lparr>links = lks, articles = arts, page_size = key_page_size d\<rparr>\<rparr>))"

definition html_yield :: "env \<Rightarrow> int \<Rightarrow> string \<Rightarrow> string \<Rightarrow> yield" where
  "html_yield e p u html =
     (case BeautifulSoup e html of
        Inl x \<Rightarrow> Not_counted
      | Inr sp \<Rightarrow>
          (case parse_page e html of
             Inl x \<Rightarrow> Not_counted
           | Inr d \<Rightarrow> data_yield p u d))"

definition page_yield :: "config \<Rightarrow> env \<Rightarrow> int \<Rightarrow> yield" where
  "page_yield c e p =
     (case build_url (format_beyond e) (base_url c) p of
        Inl x \<Rightarrow> Not_counted
      | Inr u \<Rightarrow>
          (case fst (fetch_page (max_retries c) (session_get e p) u 0) of
             Inl x \<Rightarrow> Not_counted
           | Inr None \<Rightarrow> Fetch_failed
           | Inr (Some html) \<Rightarrow>
               (if html = [] then Fetch_failed else html_yield e p u html)))"

fun records_of :: "yield \<Rightarrow> page_result list" where
  "records_of (Records r) = [r]"
| "records_of y = []"

text \<open>The results that the pages \<open>a, a + 1, ..., b\<close> yield, in this order.\<close>

definition produced :: "config \<Rightarrow> env \<Rightarrow> int \<Rightarrow> int \<Rightarrow> page_result list" where
  "produced c e a b = concat (map (\<lambda>p. records_of (page_yield c e p)) [a..b])"

text \<open>The number of records of a result: \<^verbatim>\<open>len(data['articles']) + len(data['links'])\<close>.\<close>

definition record_count :: "page_result \<Rightarrow> int" where
  "record_count r = int (length (articles (data r))) + int (length (links (data r)))"

text \<open>
  What a pass through the loop body does to the state when the page yields \<open>y\<close> and
  \<open>k\<close> errors are counted: the counter, the buffer, the statistics, the periodic
  save, the page number, and whether the loop stops for lack of content.
\<close>

definition page_effect :: "config \<Rightarrow> yield \<Rightarrow> int \<Rightarrow> crawl_state \<Rightarrow> flow \<Rightarrow> crawl_state \<Rightarrow> bool" where
  "page_effect c y k s f s' \<longleftrightarrow>
     empty_pages_count s' =
       (case y of Not_counted \<Rightarrow> empty_pages_count s | Records r \<Rightarrow> 0 | Articles_only \<Rightarrow> 0
        | Fetch_failed \<Rightarrow> empty_pages_count s + 1 | Zero_records \<Rightarrow> empty_pages_count s + 1)
     \<and> all_data s' = all_data s @ records_of y
     \<and> pages_crawled (stats s') =
         pages_crawled (stats s) + int (length (records_of y)) + (if y = Articles_only then 1 else 0)
     \<and> total_data (stats s') = total_data (stats s) + sum_list (map record_count (records_of y))
     \<and> errors (stats s') = errors (stats s) + k
     \<and> (f = Flow TERMINATED_NO_CONTENT) =
         ((y = Fetch_failed \<or> y = Zero_records) \<and> max_empty_pages c \<le> empty_pages_count s + 1)
     \<and> page_num s' =
         (if f = Flow RUNNING \<or> f = Flow TERMINATED_SAFETY_LIMIT then page_num s + 1 else page_num s)
     \<and> saved_batches (calls s') =
         saved_batches (calls s) @
           (if records_of y \<noteq> [] \<and> save_interval c \<noteq> 0 \<and> page_num s mod save_interval c = 0
            then [py_slice_from (- save_interval c) (all_data s @ records_of y)] else [])"

subsection \<open>A site to run the crawler on\<close>

text \<open>
  Eight pages: pages 1 to 3 have a link, page 4 cannot be fetched, page 5 has no
  records, the parser raises on page 6, pages 7 and 8 have a link, and page 8 is the
  last one.
\<close>

definition demo_body :: "int \<Rightarrow> string" where
  "demo_body p = (if p = 5 then ''<p></p>'' else if p = 6 then ''<a'' else ''<a href=x>t</a>'')"

definition demo_env :: env where
  "demo_env =
     \<lparr>format_beyond = (\<lambda>t n. Inl Exception),
      session_get = (\<lambda>p u i. if p = 4 then RequestException else Response (demo_body p)),
      BeautifulSoup = (\<lambda>html. Inr (Soup html)),
      parse_page = (\<lambda>html.
        if html = ''<a'' then Inl Exception
        else if html = ''<p></p>'' then
          Inr \<lparr>key_links = Some [], key_articles = Some [], key_page_size = Some (length html)\<rparr>
        else
          Inr \<lparr>key_links = Some [(''t'', ''x'')], key_articles = Some [],
            key_page_size = Some (length html)\<rparr>),
      has_next_page = (\<lambda>sp p. Inr (p < 8)),
      write_file = (\<lambda>name d. Inr ()),
      random_delay = (\<lambda>p. Inr ())\<rparr>"

definition demo_config :: config where
  "demo_config =
     \<lparr>base_url = ''https://example.com/blog?page={page}'', max_retries = 2, start_page = 1,
      max_empty_pages = 3, save_interval = 2\<rparr>"

subsection \<open>Templates whose only fields are \<^verbatim>\<open>{page}\<close>\<close>

text \<open>
  For stating what \<^verbatim>\<open>format\<close> does on the templates the constructor's docstring
  asks for: a template written as pieces of brace-free text and \<^verbatim>\<open>{page}\<close> fields,
  and the same pieces with the page number in place of each field.
\<close>

definition brace_free :: "string \<Rightarrow> bool" where
  "brace_free s = (CHR ''{'' \<notin> set s \<and> CHR ''}'' \<notin> set s)"

datatype piece = Text string | Page_field

fun template_text :: "piece list \<Rightarrow> string" where
  "template_text [] = []"
| "template_text (Text t # ps) = t @ template_text ps"
| "template_text (Page_field # ps) = ''{page}'' @ template_text ps"

fun expand :: "int \<Rightarrow> piece list \<Rightarrow> string" where
  "expand n [] = []"
| "expand n (Text t # ps) = t @ expand n ps"
| "expand n (Page_field # ps) = str_int n @ expand n ps"

fun plain :: "piece \<Rightarrow> bool" where
  "plain (Text t) = brace_free t"
| "plain Page_field = True"

section \<open>Strings, URL resolution and fetching\<close>

lemma fmt_emit_emit: "fmt_emit a (fmt_emit b r) = fmt_emit (a @ b) r"
  by (cases r) simp_all

lemma fmt_scan_literal:
  "brace_free lit \<Longrightarrow> fmt_scan Literal n (lit @ rest) = fmt_emit lit (fmt_scan Literal n rest)"
proof (induction lit)
  case Nil
  show ?case by (cases "fmt_scan Literal n rest") simp_all
next
  case (Cons c lit)
  then have c: "c \<noteq> CHR ''{''" "c \<noteq> CHR ''}''" and lit: "brace_free lit"
    by (auto simp: brace_free_def)
  show ?case
  proof (cases "lit @ rest")
    case Nil
    with c show ?thesis by simp
  next
    case (Cons d s)
    have "fmt_scan Literal n ((c # lit) @ rest) = fmt_emit [c] (fmt_scan Literal n (lit @ rest))"
      using c Cons by simp
    also have "\<dots> = fmt_emit (c # lit) (fmt_scan Literal n rest)"
      using Cons.IH [OF lit] by (simp add: fmt_emit_emit)
    finally show ?thesis .
  qed
qed

lemma fmt_scan_page:
  "fmt_scan Literal n (''{page}'' @ rest) = fmt_emit (str_int n) (fmt_scan Literal n rest)"
  by simp

lemma fmt_scan_template:
  "list_all plain ps \<Longrightarrow> fmt_scan Literal n (template_text ps) = Formatted (expand n ps)"
proof (induction ps)
  case Nil
  show ?case by simp
next
  case (Cons p ps)
  then have IH: "fmt_scan Literal n (template_text ps) = Formatted (expand n ps)"
    by simp
  show ?case
  proof (cases p)
    case (Text t)
    with Cons.prems have "brace_free t" by simp
    then show ?thesis
      using Text IH by (simp add: fmt_scan_literal)
  next
    case Page_field
    then show ?thesis
      using IH fmt_scan_page [of n "template_text ps"] by simp
  qed
qed

lemma starts_with_iff: "starts_with s sub \<longleftrightarrow> take (length sub) s = sub"
  by (induction s sub rule: starts_with.induct) auto

lemma str_contains_mid: "str_contains sub (a @ sub @ b)"
proof (induction a)
  case Nil
  have "starts_with (sub @ b) sub"
    by (simp add: starts_with_iff)
  then show ?case
    by (cases "sub @ b") auto
next
  case (Cons c a)
  then show ?case by simp
qed

lemma str_contains_template:
  "Page_field \<in> set ps \<Longrightarrow> str_contains ''{page}'' (template_text ps)"
proof (induction ps)
  case Nil
  then show ?case by simp
next
  case (Cons p ps)
  show ?case
  proof (cases p)
    case Page_field
    show ?thesis
      using str_contains_mid [of "''{page}''" "[]" "template_text ps"] Page_field by simp
  next
    case (Text t)
    with Cons have "str_contains ''{page}'' (template_text ps)" by simp
    then have "str_contains ''{page}'' (t @ template_text ps)"
      by (induction t) simp_all
    with Text show ?thesis by simp
  qed
qed

lemma str_replace_absent:
  "old \<noteq> [] \<Longrightarrow> \<not> str_contains old s \<Longrightarrow> str_replace old new s = s"
proof (induction s)
  case Nil
  then show ?case
    by (cases old) (simp_all add: str_replace.simps)
next
  case (Cons c s)
  then have "\<not> starts_with (c # s) old" and "str_replace old new s = s"
    by simp_all
  with Cons.prems(1) show ?case
    by (subst str_replace.simps) simp
qed

lemma str_replace_first:
  "old \<noteq> [] \<Longrightarrow> \<not> str_contains old (a @ butlast old) \<Longrightarrow>
   str_replace old new (a @ old @ b) = a @ new @ str_replace old new b"
proof (induction a)
  case Nil
  have "starts_with (old @ b) old"
    by (simp add: starts_with_iff)
  with Nil.prems(1) show ?case
    by (subst str_replace.simps) simp
next
  case (Cons c a)
  from Cons.prems(2) have no: "\<not> starts_with (c # a @ butlast old) old"
    and rest: "\<not> str_contains old (a @ butlast old)"
    by simp_all
  have len: "length old \<le> length (c # a @ butlast old)"
    by simp
  have "c # a @ old @ b = (c # a @ butlast old) @ [last old] @ b"
    using Cons.prems(1) by simp
  then have "take (length old) (c # a @ old @ b) = take (length old) (c # a @ butlast old)"
    using len by (metis append_eq_conv_conj take_all_iff take_append min.absorb2 append.right_neutral diff_is_0_eq take_0)
  with no have "\<not> starts_with (c # a @ old @ b) old"
    by (simp add: starts_with_iff)
  with Cons.prems(1) Cons.IH [OF Cons.prems(1) rest] show ?case
    by (subst str_replace.simps) simp
qed

lemma fetch_page_retry_then_ok:
  "(\<forall>i<k. sg u i = RequestException) \<Longrightarrow> sg u k = Response text \<Longrightarrow> int (rc + k) \<le> mr \<Longrightarrow>
   fetch_page mr sg u rc =
     (Inr (Some text), concat (map (\<lambda>i. [Warning (i + 1), Sleep (2 ^ i)]) [rc..<rc + k]))"
proof (induction k arbitrary: sg rc)
  case 0
  then show ?case
    by (subst fetch_page.simps) simp
next
  case (Suc k)
  from Suc.prems(1) have fail: "sg u 0 = RequestException"
    by simp
  from Suc.prems(3) have more: "int rc < mr"
    by simp
  have "fetch_page mr (\<lambda>u i. sg u (Suc i)) u (Suc rc) =
     (Inr (Some text), concat (map (\<lambda>i. [Warning (i + 1), Sleep (2 ^ i)]) [Suc rc..<Suc rc + k]))"
    using Suc.prems by (intro Suc.IH) simp_all
  with fail more show ?case
    by (subst fetch_page.simps) (simp add: upt_conv_Cons)
qed

lemma fetch_page_exhausted:
  "(\<forall>i\<le>m. sg u i = RequestException) \<Longrightarrow> m = nat (mr - int rc) \<Longrightarrow>
   fetch_page mr sg u rc =
     (Inr None, concat (map (\<lambda>i. [Warning (i + 1), Sleep (2 ^ i)]) [rc..<rc + m]) @ [Error])"
proof (induction m arbitrary: sg rc)
  case 0
  then show ?case
    by (subst fetch_page.simps) simp
next
  case (Suc m)
  from Suc.prems(1) have fail: "sg u 0 = RequestException"
    by simp
  from Suc.prems(2) have more: "int rc < mr"
    by simp
  have "fetch_page mr (\<lambda>u i. sg u (Suc i)) u (Suc rc) =
     (Inr None, concat (map (\<lambda>i. [Warning (i + 1), Sleep (2 ^ i)]) [Suc rc..<Suc rc + m]) @ [Error])"
    using Suc.prems by (intro Suc.IH) auto
  with fail more show ?case
    by (subst fetch_page.simps) (simp add: upt_conv_Cons)
qed

lemma upt_shift: "[rc..<rc + Suc n] = rc # [Suc rc..<Suc rc + n]"
  by (simp add: upt_conv_Cons del: upt_Suc)

lemma fetch_page_schedule:
  "sleeps (snd (fetch_page mr sg u rc)) =
     map (\<lambda>k. 2 ^ k) [rc..<rc + length (sleeps (snd (fetch_page mr sg u rc)))]
   \<and> warnings (snd (fetch_page mr sg u rc)) =
     map Suc [rc..<rc + length (sleeps (snd (fetch_page mr sg u rc)))]
   \<and> int (rc + length (sleeps (snd (fetch_page mr sg u rc)))) \<le> max mr (int rc)"
proof (induction mr sg u rc rule: fetch_page.induct)
  case (1 mr sg u rc)
  show ?case
  proof (cases "sg u 0")
    case (Response body)
    then show ?thesis by (subst (1 2 3 4 5) fetch_page.simps) simp
  next
    case (Raises x)
    then show ?thesis by (subst (1 2 3 4 5) fetch_page.simps) simp
  next
    case RequestException
    show ?thesis
    proof (cases "int rc < mr")
      case False
      with RequestException show ?thesis by (subst (1 2 3 4 5) fetch_page.simps) simp
    next
      case True
      obtain r evs where rec: "fetch_page mr (\<lambda>u i. sg u (Suc i)) u (Suc rc) = (r, evs)"
        by (cases "fetch_page mr (\<lambda>u i. sg u (Suc i)) u (Suc rc)")
      have now: "fetch_page mr sg u rc = (r, Warning (rc + 1) # Sleep (2 ^ rc) # evs)"
        using RequestException True rec by (subst fetch_page.simps) simp
      from "1.IH" [OF RequestException True] rec
      have IH: "sleeps evs = map (\<lambda>k. 2 ^ k) [Suc rc..<Suc rc + length (sleeps evs)]"
        "warnings evs = map Suc [Suc rc..<Suc rc + length (sleeps evs)]"
        "int (Suc rc + length (sleeps evs)) \<le> max mr (int (Suc rc))"
        by simp_all
      define n where "n = length (sleeps evs)"
      have len: "length (sleeps (Warning (rc + 1) # Sleep (2 ^ rc) # evs)) = Suc n"
        by (simp add: n_def)
      have sl: "sleeps (Warning (rc + 1) # Sleep (2 ^ rc) # evs) = 2 ^ rc # map (\<lambda>k. 2 ^ k) [Suc rc..<Suc rc + n]"
        using IH(1) by (simp add: n_def)
      have "sleeps (Warning (rc + 1) # Sleep (2 ^ rc) # evs) =
          map (\<lambda>k. 2 ^ k) [rc..<rc + length (sleeps (Warning (rc + 1) # Sleep (2 ^ rc) # evs))]"
        unfolding len upt_shift list.map by (rule sl)
      moreover have wa: "warnings (Warning (rc + 1) # Sleep (2 ^ rc) # evs) = Suc rc # map Suc [Suc rc..<Suc rc + n]"
        using IH(2) by (simp add: n_def)
      have "warnings (Warning (rc + 1) # Sleep (2 ^ rc) # evs) =
          map Suc [rc..<rc + length (sleeps (Warning (rc + 1) # Sleep (2 ^ rc) # evs))]"
        unfolding len upt_shift list.map by (rule wa)
      moreover from IH(3) True
      have "int (rc + length (sleeps (Warning (rc + 1) # Sleep (2 ^ rc) # evs))) \<le> max mr (int rc)"
        by simp
      ultimately show ?thesis
        by (simp only: now snd_conv)
    qed
  qed
qed

lemma fetch_page_contract:
  "(\<forall>i x. sg u i \<noteq> Raises x) \<Longrightarrow> \<exists>r. fst (fetch_page mr sg u rc) = Inr r"
proof (induction mr sg u rc rule: fetch_page.induct)
  case (1 mr sg u rc)
  show ?case
  proof (cases "sg u 0")
    case (Response body)
    then show ?thesis by (subst fetch_page.simps) simp
  next
    case (Raises x)
    with "1.prems" show ?thesis by simp
  next
    case RequestException
    show ?thesis
    proof (cases "int rc < mr")
      case False
      with RequestException show ?thesis by (subst fetch_page.simps) simp
    next
      case True
      from "1.IH" [OF RequestException True] "1.prems"
      obtain r where "fst (fetch_page mr (\<lambda>u i. sg u (Suc i)) u (Suc rc)) = Inr r"
        by auto
      with RequestException True show ?thesis
        by (subst fetch_page.simps) (simp add: split_beta)
    qed
  qed
qed

lemma sorted_powers: "sorted (map (\<lambda>k. (2::nat) ^ k) [a..<b])"
  by (simp add: sorted_map sorted_wrt_iff_nth_less)

lemma sleeps_retries:
  "sleeps (concat (map (\<lambda>i. [Warning (i + 1), Sleep (2 ^ i)]) [a..<b]) @ evs) = map (\<lambda>k. 2 ^ k) [a..<b] @ sleeps evs"
  by (induction b arbitrary: evs) simp_all

lemma warnings_retries:
  "warnings (concat (map (\<lambda>i. [Warning (i + 1), Sleep (2 ^ i)]) [a..<b]) @ evs) = map Suc [a..<b] @ warnings evs"
  by (induction b arbitrary: evs) simp_all

lemma fetch_page_all_fail:
  assumes "\<forall>i\<le>nat mr. sg u i = RequestException"
  shows "fetch_page mr sg u 0 =
    (Inr None, concat (map (\<lambda>i. [Warning (i + 1), Sleep (2 ^ i)]) [0..<nat mr]) @ [Error])"
proof -
  have "nat mr = nat (mr - int 0)"
    by simp
  from fetch_page_exhausted [of "nat mr" sg u mr 0, OF assms this] show ?thesis
    by simp
qed

lemma fetch_page_fail_then_ok:
  assumes "\<forall>i<k. sg u i = RequestException" and "sg u k = Response body" and "int k \<le> mr"
  shows "fetch_page mr sg u 0 =
    (Inr (Some body), concat (map (\<lambda>i. [Warning (i + 1), Sleep (2 ^ i)]) [0..<k]))"
proof -
  from assms(3) have "int (0 + k) \<le> mr"
    by simp
  from fetch_page_retry_then_ok [of k sg u body 0 mr, OF assms(1,2) this] show ?thesis
    by simp
qed



text \<open>
  C5. \<^verbatim>\<open>fetch_page\<close> hands a failed page back as a value. While the session keeps to
  the fetcher's contract (a body or a \<^verbatim>\<open>RequestException\<close>) nothing is raised to the
  caller; when the request fails on the first try and on each of the \<open>max_retries\<close>
  retries, the result is \<^verbatim>\<open>None\<close>, after one warning and one sleep per retry and a
  final error line; when it fails \<open>k\<close> times and then succeeds, with \<open>k \<le> max_retries\<close>,
  the result is the body and exactly \<open>k\<close> retry warnings (numbered 1 to \<open>k\<close>) were logged.
\<close>

theorem fetch_page_reports:
  "((\<forall>i x. sg u i \<noteq> Raises x) \<longrightarrow> (\<exists>r. fst (fetch_page mr sg u 0) = Inr r))
   \<and> ((\<forall>i\<le>nat mr. sg u i = RequestException) \<longrightarrow>
        fetch_page mr sg u 0 =
          (Inr None, concat (map (\<lambda>i. [Warning (i + 1), Sleep (2 ^ i)]) [0..<nat mr]) @ [Error]))
   \<and> ((\<forall>i<k. sg u i = RequestException) \<and> sg u k = Response body \<and> int k \<le> mr \<longrightarrow>
        fetch_page mr sg u 0 =
          (Inr (Some body), concat (map (\<lambda>i. [Warning (i + 1), Sleep (2 ^ i)]) [0..<k]))
        \<and> warnings (snd (fetch_page mr sg u 0)) = map Suc [0..<k]
        \<and> length (warnings (snd (fetch_page mr sg u 0))) = k)"
proof (intro conjI impI)
  assume "\<forall>i x. sg u i \<noteq> Raises x"
  then show "\<exists>r. fst (fetch_page mr sg u 0) = Inr r"
    by (rule fetch_page_contract)
next
  assume "\<forall>i\<le>nat mr. sg u i = RequestException"
  then show "fetch_page mr sg u 0 =
      (Inr None, concat (map (\<lambda>i. [Warning (i + 1), Sleep (2 ^ i)]) [0..<nat mr]) @ [Error])"
    by (rule fetch_page_all_fail [of mr sg u])
next
  assume a: "(\<forall>i<k. sg u i = RequestException) \<and> sg u k = Response body \<and> int k \<le> mr"
  then show ok: "fetch_page mr sg u 0 =
      (Inr (Some body), concat (map (\<lambda>i. [Warning (i + 1), Sleep (2 ^ i)]) [0..<k]))"
    using fetch_page_fail_then_ok [of k sg u body mr] by blast
  show w: "warnings (snd (fetch_page mr sg u 0)) = map Suc [0..<k]"
    using warnings_retries [of 0 k "[]"] by (simp add: ok)
  show "length (warnings (snd (fetch_page mr sg u 0))) = k"
    by (simp add: w)
qed

theorem fetch_page_reports_witness:
  "fetch_page 3 (\<lambda>u i. if i < 2 then RequestException else Response ''<html>'') ''http://x/p?page=1'' 0
     = (Inr (Some ''<html>''), [Warning 1, Sleep 1, Warning 2, Sleep 2])
   \<and> length (warnings (snd (fetch_page 3 (\<lambda>u i. if i < 2 then RequestException else Response ''<html>'')
       ''http://x/p?page=1'' 0))) = 2
   \<and> fetch_page 3 (\<lambda>u i. RequestException) ''http://x/p?page=1'' 0
     = (Inr None, [Warning 1, Sleep 1, Warning 2, Sleep 2, Warning 3, Sleep 4, Error])
   \<and> (\<exists>r. fst (fetch_page 3 (\<lambda>u i. RequestException) ''http://x/p?page=1'' 0) = Inr r)"
proof -
  let ?sg = "\<lambda>(u::string) (i::nat). if i < 2 then RequestException else Response ''<html>''"
  let ?down = "\<lambda>(u::string) (i::nat). RequestException"
  let ?u = "''http://x/p?page=1''"
  have steps: "concat (map (\<lambda>i. [Warning (i + 1), Sleep (2 ^ i)]) [0..<2]) = [Warning 1, Sleep 1, Warning 2, Sleep 2]"
    "concat (map (\<lambda>i. [Warning (i + 1), Sleep (2 ^ i)]) [0..<nat 3]) @ [Error]
      = [Warning 1, Sleep 1, Warning 2, Sleep 2, Warning 3, Sleep 4, Error]"
    by code_simp+
  have h: "(\<forall>i<2. ?sg ?u i = RequestException) \<and> ?sg ?u 2 = Response ''<html>'' \<and> int 2 \<le> 3"
    by simp
  have d: "\<forall>i\<le>nat 3. ?down ?u i = RequestException" "\<forall>i x. ?down ?u i \<noteq> Raises x"
    by simp_all
  from fetch_page_reports [of ?sg ?u 3 2 "''<html>''"] h
  have "fetch_page 3 ?sg ?u 0 = (Inr (Some ''<html>''), concat (map (\<lambda>i. [Warning (i + 1), Sleep (2 ^ i)]) [0..<2]))"
    and "length (warnings (snd (fetch_page 3 ?sg ?u 0))) = 2"
    by blast+
  moreover from fetch_page_reports [of ?down ?u 3 0 "[]"] d
  have "fetch_page 3 ?down ?u 0 = (Inr None, concat (map (\<lambda>i. [Warning (i + 1), Sleep (2 ^ i)]) [0..<nat 3]) @ [Error])"
    and "\<exists>r. fst (fetch_page 3 ?down ?u 0) = Inr r"
    by blast+
  ultimately show ?thesis
    by (simp only: steps)
qed

text \<open>
  C6. The sleeps of one \<^verbatim>\<open>fetch_page\<close> call are, in order, \<open>1 * 2 ^ k\<close> seconds for
  \<open>k = 0, 1, ...\<close>: the delay before retry \<open>k\<close> is \<open>2 ^ k\<close>, the list is
  non-decreasing, there are at most \<open>max_retries\<close> of them, and when every request
  fails there is one for every \<open>k < max_retries\<close>.
\<close>

theorem backoff_doubles:
  "sleeps (snd (fetch_page mr sg u 0)) =
     map (\<lambda>k. 1 * 2 ^ k) [0..<length (sleeps (snd (fetch_page mr sg u 0)))]
   \<and> sorted (sleeps (snd (fetch_page mr sg u 0)))
   \<and> int (length (sleeps (snd (fetch_page mr sg u 0)))) \<le> max mr 0
   \<and> ((\<forall>i\<le>nat mr. sg u i = RequestException) \<longrightarrow>
        sleeps (snd (fetch_page mr sg u 0)) = map (\<lambda>k. 1 * 2 ^ k) [0..<nat mr])"
proof (intro conjI impI)
  from fetch_page_schedule [of mr sg u 0]
  show eq: "sleeps (snd (fetch_page mr sg u 0)) =
      map (\<lambda>k. 1 * 2 ^ k) [0..<length (sleeps (snd (fetch_page mr sg u 0)))]"
    and "int (length (sleeps (snd (fetch_page mr sg u 0)))) \<le> max mr 0"
    by simp_all
  show "sorted (sleeps (snd (fetch_page mr sg u 0)))"
    using sorted_powers [of 0 "length (sleeps (snd (fetch_page mr sg u 0)))"] eq by simp
next
  assume "\<forall>i\<le>nat mr. sg u i = RequestException"
  then have "fetch_page mr sg u 0 =
      (Inr None, concat (map (\<lambda>i. [Warning (i + 1), Sleep (2 ^ i)]) [0..<nat mr]) @ [Error])"
    by (rule fetch_page_all_fail [of mr sg u])
  then show "sleeps (snd (fetch_page mr sg u 0)) = map (\<lambda>k. 1 * 2 ^ k) [0..<nat mr]"
    using sleeps_retries [of 0 "nat mr" "[Error]"] by simp
qed

theorem backoff_doubles_witness:
  "sleeps (snd (fetch_page 3 (\<lambda>u i. RequestException) ''http://x/p?page=1'' 0)) = [1, 2, 4]"
proof -
  have "\<forall>i\<le>nat 3. (\<lambda>(u::string) (i::nat). RequestException) ''http://x/p?page=1'' i = RequestException"
    by simp
  with backoff_doubles [of 3 "\<lambda>u i. RequestException" "''http://x/p?page=1''"]
  have "sleeps (snd (fetch_page 3 (\<lambda>u i. RequestException) ''http://x/p?page=1'' 0)) = map (\<lambda>k. 1 * 2 ^ k) [0..<nat 3]"
    by blast
  moreover have "map (\<lambda>k. 1 * 2 ^ k) [0..<nat 3] = [1, 2, 4::nat]"
    by code_simp
  ultimately show ?thesis
    by (simp only:)
qed

lemma build_url_placeholder:
  "list_all plain ps \<Longrightarrow> Page_field \<in> set ps \<Longrightarrow>
   build_url beyond (template_text ps) n = Inr (expand n ps)"
  by (simp add: build_url_def str_format_def str_contains_template fmt_scan_template)

lemma build_url_page_1:
  assumes "\<not> str_contains ''{page}'' (a @ ''?page=1'' @ b)"
    and "\<not> str_contains ''page=1'' (a @ ''?page='')"
    and "\<not> str_contains ''page=1'' b"
  shows "build_url beyond (a @ ''?page=1'' @ b) n = Inr (a @ ''?page='' @ str_int n @ b)"
proof -
  have q: "str_contains ''?page='' (a @ ''?page=1'' @ b)"
    using str_contains_mid [of "''?page=''" a "''1'' @ b"] by simp
  have "str_replace ''page=1'' (''page='' @ str_int n) ((a @ ''?'') @ ''page=1'' @ b)
      = (a @ ''?'') @ (''page='' @ str_int n) @ str_replace ''page=1'' (''page='' @ str_int n) b"
    using assms(2) by (intro str_replace_first) simp_all
  also have "str_replace ''page=1'' (''page='' @ str_int n) b = b"
    using assms(3) by (intro str_replace_absent) simp_all
  finally have "str_replace ''page=1'' (''page='' @ str_int n) (a @ ''?page=1'' @ b)
      = a @ ''?page='' @ str_int n @ b"
    by simp
  with assms(1) q show ?thesis
    by (simp add: build_url_def)
qed

text \<open>
  C3, as amended. URL resolution is a function of the template and the page number,
  with three cases in this order. (a) A template that contains \<^verbatim>\<open>{page}\<close> goes
  through \<^verbatim>\<open>format\<close>: when its only braces are \<^verbatim>\<open>{page}\<close> fields, the URL is the
  template with the decimal page number in place of each field. (b) Otherwise, a
  template with the query parameter written \<^verbatim>\<open>?page=1\<close>, and with no other
  \<^verbatim>\<open>page=1\<close> in it, becomes the same URL with \<^verbatim>\<open>?page=N\<close>. (c) Otherwise, a
  template without \<^verbatim>\<open>?page=\<close> gets \<^verbatim>\<open>?page=N\<close> appended.
\<close>

theorem build_url_priority:
  "(list_all plain ps \<and> Page_field \<in> set ps \<longrightarrow>
      build_url beyond (template_text ps) n = Inr (expand n ps))
   \<and> (\<not> str_contains ''{page}'' (a @ ''?page=1'' @ b) \<and> \<not> str_contains ''page=1'' (a @ ''?page='')
        \<and> \<not> str_contains ''page=1'' b \<longrightarrow>
      build_url beyond (a @ ''?page=1'' @ b) n = Inr (a @ ''?page='' @ str_int n @ b))
   \<and> (\<not> str_contains ''{page}'' t' \<and> \<not> str_contains ''?page='' t' \<longrightarrow>
      build_url beyond t' n = Inr (t' @ ''?page='' @ str_int n))"
proof (intro conjI impI)
  assume "list_all plain ps \<and> Page_field \<in> set ps"
  then show "build_url beyond (template_text ps) n = Inr (expand n ps)"
    by (simp add: build_url_placeholder)
next
  assume "\<not> str_contains ''{page}'' (a @ ''?page=1'' @ b) \<and> \<not> str_contains ''page=1'' (a @ ''?page='')
      \<and> \<not> str_contains ''page=1'' b"
  then show "build_url beyond (a @ ''?page=1'' @ b) n = Inr (a @ ''?page='' @ str_int n @ b)"
    by (intro build_url_page_1) simp_all
next
  assume "\<not> str_contains ''{page}'' t' \<and> \<not> str_contains ''?page='' t'"
  then show "build_url beyond t' n = Inr (t' @ ''?page='' @ str_int n)"
    by (simp add: build_url_def)
qed

theorem build_url_priority_witness:
  "build_url (\<lambda>t n. Inl Exception) ''https://example.com/blog?page={page}'' 7
     = Inr ''https://example.com/blog?page=7''
   \<and> build_url (\<lambda>t n. Inl Exception) ''https://example.com/list?page=1&sort=new'' 7
     = Inr ''https://example.com/list?page=7&sort=new''
   \<and> build_url (\<lambda>t n. Inl Exception) ''https://example.com/news'' 7
     = Inr ''https://example.com/news?page=7''"
proof -
  let ?beyond = "\<lambda>(t::string) (n::int). (Inl Exception :: exn + string)"
  let ?ps = "[Text ''https://example.com/blog?page='', Page_field]"
  have a: "list_all plain ?ps \<and> Page_field \<in> set ?ps"
    by (simp add: brace_free_def)
  have ta: "template_text ?ps = ''https://example.com/blog?page={page}''"
    and ea: "expand 7 ?ps = ''https://example.com/blog?page=7''"
    by code_simp+
  have b: "\<not> str_contains ''{page}'' (''https://example.com/list'' @ ''?page=1'' @ ''&sort=new'')
      \<and> \<not> str_contains ''page=1'' (''https://example.com/list'' @ ''?page='')
      \<and> \<not> str_contains ''page=1'' ''&sort=new''"
    by code_simp
  have eb: "''https://example.com/list'' @ ''?page='' @ str_int 7 @ ''&sort=new'' = ''https://example.com/list?page=7&sort=new''"
    and tb: "''https://example.com/list'' @ ''?page=1'' @ ''&sort=new'' = ''https://example.com/list?page=1&sort=new''"
    by code_simp+
  have c: "\<not> str_contains ''{page}'' ''https://example.com/news'' \<and> \<not> str_contains ''?page='' ''https://example.com/news''"
    by code_simp
  have ec: "''https://example.com/news'' @ ''?page='' @ str_int 7 = ''https://example.com/news?page=7''"
    by code_simp
  from build_url_priority [of ?ps ?beyond 7 "''https://example.com/list''" "''&sort=new''"
      "''https://example.com/news''"] a b c
  have "build_url ?beyond (template_text ?ps) 7 = Inr (expand 7 ?ps)"
    and "build_url ?beyond (''https://example.com/list'' @ ''?page=1'' @ ''&sort=new'') 7
      = Inr (''https://example.com/list'' @ ''?page='' @ str_int 7 @ ''&sort=new'')"
    and "build_url ?beyond ''https://example.com/news'' 7 = Inr (''https://example.com/news'' @ ''?page='' @ str_int 7)"
    by blast+
  then show ?thesis
    by (simp only: ta ea tb eb ec)
qed

text \<open>
  The claim as first stated fails in two ways. A template whose \<^verbatim>\<open>page=\<close> parameter
  is not written as \<^verbatim>\<open>page=1\<close> is resolved to itself: the URL of page 7 does not
  carry a 7. And a template with a second field, like the one
  \<^verbatim>\<open>configure_for_specific_site\<close> builds, has no URL at all: \<^verbatim>\<open>format\<close> raises
  \<^verbatim>\<open>KeyError\<close>.
\<close>

theorem build_url_counterexample:
  "build_url (\<lambda>t n. Inl Exception) ''https://example.com/news?page=2'' 7
     = Inr ''https://example.com/news?page=2''
   \<and> \<not> str_contains (str_int 7) ''https://example.com/news?page=2''
   \<and> build_url (\<lambda>t n. Inr t) ''https://example.com/{column}/articles?offset={page}'' 7
     = Inl Exception"
  by code_simp


section \<open>The loop of \<^verbatim>\<open>crawl\<close>\<close>

subsection \<open>One iteration\<close>

lemma saved_batches_append: "saved_batches (xs @ ys) = saved_batches xs @ saved_batches ys"
  by (induction xs rule: saved_batches.induct) simp_all

lemma check_next_frame:
  assumes "check_next e sp s = (f, s')"
  shows "empty_pages_count s' = empty_pages_count s" and "all_data s' = all_data s"
    and "stats s' = stats s" and "saved_batches (calls s') = saved_batches (calls s)"
    and "f \<noteq> Flow TERMINATED_NO_CONTENT"
    and "page_num s' = (if f = Flow RUNNING \<or> f = Flow TERMINATED_SAFETY_LIMIT then page_num s + 1 else page_num s)"
  using assms
  by (auto simp: check_next_def Let_def saved_batches_append split: sum.splits bool.splits if_splits)

lemma save_and_next_frame:
  assumes "save_and_next c e sp s = (f, s')"
  shows "empty_pages_count s' = empty_pages_count s" and "all_data s' = all_data s"
    and "stats s' = stats s" and "f \<noteq> Flow TERMINATED_NO_CONTENT"
    and "page_num s' = (if f = Flow RUNNING \<or> f = Flow TERMINATED_SAFETY_LIMIT then page_num s + 1 else page_num s)"
    and "saved_batches (calls s') = saved_batches (calls s) @
      (if save_interval c \<noteq> 0 \<and> page_num s mod save_interval c = 0
       then [py_slice_from (- save_interval c) (all_data s)] else [])"
proof -
  consider (zero) "save_interval c = 0"
    | (save) "save_interval c \<noteq> 0" "page_num s mod save_interval c = 0"
    | (skip) "save_interval c \<noteq> 0" "page_num s mod save_interval c \<noteq> 0"
    by blast
  then have "empty_pages_count s' = empty_pages_count s \<and> all_data s' = all_data s
    \<and> stats s' = stats s \<and> f \<noteq> Flow TERMINATED_NO_CONTENT
    \<and> page_num s' = (if f = Flow RUNNING \<or> f = Flow TERMINATED_SAFETY_LIMIT then page_num s + 1 else page_num s)
    \<and> saved_batches (calls s') = saved_batches (calls s) @
      (if save_interval c \<noteq> 0 \<and> page_num s mod save_interval c = 0
       then [py_slice_from (- save_interval c) (all_data s)] else [])"
  proof cases
    case zero
    with assms show ?thesis
      by (auto simp: save_and_next_def)
  next
    case skip
    with assms have "check_next e sp s = (f, s')"
      by (simp add: save_and_next_def)
    from check_next_frame [OF this] skip show ?thesis
      by simp
  next
    case save
    define s1 where "s1 = s\<lparr>calls := calls s @
      [Call_save_data (Pages (py_slice_from (- save_interval c) (all_data s)))
        (''batch_'' @ str_int (page_num s div save_interval c))]\<rparr>"
    have s1: "empty_pages_count s1 = empty_pages_count s" "all_data s1 = all_data s" "stats s1 = stats s"
      "page_num s1 = page_num s"
      "saved_batches (calls s1) = saved_batches (calls s) @ [py_slice_from (- save_interval c) (all_data s)]"
      by (simp_all add: s1_def saved_batches_append)
    show ?thesis
    proof (cases "save_data e (Pages (py_slice_from (- save_interval c) (all_data s)))
        (''batch_'' @ str_int (page_num s div save_interval c))")
      case (Inl x)
      with save assms have "f = Raise x" "s' = s1"
        by (auto simp: save_and_next_def Let_def s1_def)
      with save s1 show ?thesis
        by simp
    next
      case (Inr v)
      with save assms have "check_next e sp s1 = (f, s')"
        by (auto simp: save_and_next_def Let_def s1_def)
      from check_next_frame [OF this] save s1 show ?thesis
        by simp
    qed
  qed
  then show "empty_pages_count s' = empty_pages_count s" and "all_data s' = all_data s"
    and "stats s' = stats s" and "f \<noteq> Flow TERMINATED_NO_CONTENT"
    and "page_num s' = (if f = Flow RUNNING \<or> f = Flow TERMINATED_SAFETY_LIMIT then page_num s + 1 else page_num s)"
    and "saved_batches (calls s') = saved_batches (calls s) @
      (if save_interval c \<noteq> 0 \<and> page_num s mod save_interval c = 0
       then [py_slice_from (- save_interval c) (all_data s)] else [])"
    by blast+
qed

lemma process_data_effect:
  assumes "process_data c e u sp d s = (f, s')"
  shows "page_effect c (data_yield (page_num s) u d) 0 s f s'"
proof (cases "key_articles d")
  case None
  with assms show ?thesis
    by (auto simp: process_data_def no_records_def data_yield_def page_effect_def)
next
  case arts: (Some arts)
  show ?thesis
  proof (cases "key_links d")
    case None
    show ?thesis
    proof (cases "arts = []")
      case True
      with arts None assms show ?thesis
        by (auto simp: process_data_def no_records_def data_yield_def page_effect_def)
    next
      case False
      with arts None assms show ?thesis
        by (auto simp: process_data_def no_records_def data_yield_def page_effect_def Let_def)
    qed
  next
    case lks: (Some lks)
    show ?thesis
    proof (cases "arts = [] \<and> lks = []")
      case True
      with arts lks have y: "data_yield (page_num s) u d = Zero_records"
        and nr: "no_records d = Inr True"
        by (simp_all add: data_yield_def no_records_def)
      show ?thesis
      proof (cases "max_empty_pages c \<le> empty_pages_count s + 1")
        case True
        with nr assms show ?thesis
          by (auto simp: process_data_def page_effect_def y Let_def)
      next
        case False
        with nr assms
        have "check_next e sp (s\<lparr>empty_pages_count := empty_pages_count s + 1\<rparr>) = (f, s')"
          by (simp add: process_data_def Let_def)
        from check_next_frame [OF this] False show ?thesis
          by (simp add: page_effect_def y)
      qed
    next
      case False
      define r where "r = \<lparr>page = page_num s, url = u,
        data = \<lparr>links = lks, articles = arts, page_size = key_page_size d\<rparr>\<rparr>"
      from False arts lks have y: "data_yield (page_num s) u d = Records r"
        and nr: "no_records d = Inr False"
        by (auto simp: data_yield_def no_records_def r_def)
      define s4 where "s4 = s\<lparr>empty_pages_count := 0,
        stats := (stats s)\<lparr>pages_crawled := pages_crawled (stats s) + 1,
          total_data := total_data (stats s) + (int (length arts) + int (length lks))\<rparr>,
        all_data := all_data s @ [r]\<rparr>"
      have rc: "record_count r = int (length arts) + int (length lks)"
        by (simp add: record_count_def r_def)
      from nr arts lks assms have "save_and_next c e sp s4 = (f, s')"
        by (simp add: process_data_def Let_def s4_def r_def)
      from save_and_next_frame [OF this] show ?thesis
        by (simp add: page_effect_def y s4_def rc)
    qed
  qed
qed

lemma no_html_effect:
  assumes "no_html c s = (f, s')"
  shows "page_effect c Fetch_failed 0 s f s'"
  using assms by (auto simp: no_html_def page_effect_def Let_def split: if_splits)

lemma page_effect_calls:
  "page_effect c y 0 s f s' \<Longrightarrow> saved_batches (calls s0) = saved_batches (calls s) \<Longrightarrow>
   empty_pages_count s0 = empty_pages_count s \<Longrightarrow> all_data s0 = all_data s \<Longrightarrow> stats s0 = stats s \<Longrightarrow>
   page_num s0 = page_num s \<Longrightarrow> page_effect c y 0 s0 f s'"
  unfolding page_effect_def by (cases y) simp_all

lemma parse_html_effect:
  assumes "parse_html c e u html s = (f, s')"
  shows "page_effect c (html_yield e (page_num s) u html) 0 s f s'"
proof (cases "BeautifulSoup e html")
  case (Inl x)
  with assms show ?thesis
    by (auto simp: parse_html_def html_yield_def page_effect_def Let_def saved_batches_append)
next
  case soup: (Inr sp)
  show ?thesis
  proof (cases "parse_page e html")
    case (Inl x)
    with soup assms show ?thesis
      by (auto simp: parse_html_def html_yield_def page_effect_def Let_def saved_batches_append)
  next
    case (Inr d)
    define s2 where "s2 = s\<lparr>calls := calls s @ [Call_BeautifulSoup, Call_parse_page]\<rparr>"
    from soup Inr assms have "process_data c e u sp d s2 = (f, s')"
      by (simp add: parse_html_def Let_def s2_def)
    from process_data_effect [OF this]
    have "page_effect c (data_yield (page_num s) u d) 0 s2 f s'"
      by (simp add: s2_def)
    then have "page_effect c (data_yield (page_num s) u d) 0 s f s'"
      by (rule page_effect_calls) (simp_all add: s2_def saved_batches_append)
    with soup Inr show ?thesis
      by (simp add: html_yield_def)
  qed
qed

lemma crawl_try_effect:
  assumes "crawl_try c e s = (f, s')"
  shows "page_effect c (page_yield c e (page_num s)) 0 s f s'"
proof (cases "build_url (format_beyond e) (base_url c) (page_num s)")
  case (Inl x)
  with assms show ?thesis
    by (auto simp: crawl_try_def page_yield_def page_effect_def)
next
  case url: (Inr u)
  obtain r evs where fp: "fetch_page (max_retries c) (session_get e (page_num s)) u 0 = (r, evs)"
    by (cases "fetch_page (max_retries c) (session_get e (page_num s)) u 0")
  define s1 where "s1 = s\<lparr>calls := calls s @ [Call_fetch_page u evs]\<rparr>"
  have frame: "saved_batches (calls s) = saved_batches (calls s1)" "empty_pages_count s = empty_pages_count s1"
    "all_data s = all_data s1" "stats s = stats s1" "page_num s = page_num s1"
    by (simp_all add: s1_def saved_batches_append)
  show ?thesis
  proof (cases r)
    case (Inl x)
    with url fp assms show ?thesis
      by (auto simp: crawl_try_def page_yield_def page_effect_def Let_def saved_batches_append)
  next
    case res: (Inr h)
    show ?thesis
    proof (cases "h = None \<or> h = Some []")
      case True
      with url fp res assms have "no_html c s1 = (f, s')"
        by (auto simp: crawl_try_def Let_def s1_def)
      from no_html_effect [OF this] have "page_effect c Fetch_failed 0 s f s'"
        by (rule page_effect_calls) (simp_all add: frame)
      moreover from True url fp res have "page_yield c e (page_num s) = Fetch_failed"
        by (auto simp: page_yield_def)
      ultimately show ?thesis by simp
    next
      case False
      then obtain html where h: "h = Some html" "html \<noteq> []"
        by (cases h) auto
      with url fp res assms have "parse_html c e u html s1 = (f, s')"
        by (simp add: crawl_try_def Let_def s1_def)
      from parse_html_effect [OF this] have "page_effect c (html_yield e (page_num s) u html) 0 s1 f s'"
        by (simp add: s1_def)
      then have "page_effect c (html_yield e (page_num s) u html) 0 s f s'"
        by (rule page_effect_calls) (simp_all add: frame)
      moreover from h url fp res have "page_yield c e (page_num s) = html_yield e (page_num s) u html"
        by (simp add: page_yield_def)
      ultimately show ?thesis by simp
    qed
  qed
qed


lemma crawl_iter_effect:
  assumes "crawl_iter c e s = (st, s')"
  shows "page_effect c (page_yield c e (page_num s))
    (if fst (crawl_try c e s) = Raise Exception then 1 else 0) s (Flow st) s'"
proof -
  obtain f s1 where tr: "crawl_try c e s = (f, s1)"
    by (cases "crawl_try c e s")
  from crawl_try_effect [OF tr]
  have eff: "page_effect c (page_yield c e (page_num s)) 0 s f s1" .
  show ?thesis
  proof (cases f)
    case (Flow st1)
    with tr assms have "st = st1" "s' = s1"
      by (simp_all add: crawl_iter_def)
    with eff Flow tr show ?thesis
      by simp
  next
    case (Raise x)
    show ?thesis
    proof (cases x)
      case KeyboardInterrupt
      with Raise tr assms have "st = TERMINATED_INTERRUPTED" "s' = s1"
        by (simp_all add: crawl_iter_def)
      with eff Raise KeyboardInterrupt tr show ?thesis
        by (cases "page_yield c e (page_num s)") (simp_all add: page_effect_def)
    next
      case Exception
      with Raise tr assms have "st = RUNNING"
        "s' = s1\<lparr>stats := (stats s1)\<lparr>errors := errors (stats s1) + 1\<rparr>, page_num := page_num s1 + 1\<rparr>"
        by (simp_all add: crawl_iter_def)
      with eff Raise Exception tr show ?thesis
        by (cases "page_yield c e (page_num s)") (simp_all add: page_effect_def)
    qed
  qed
qed

lemma crawl_loop_iterate:
  "crawl_loop fuel c e s = Some r \<Longrightarrow> crawl_iterate fuel c e s = r \<and> fst r \<noteq> RUNNING"
proof (induction fuel arbitrary: s)
  case 0
  then show ?case by simp
next
  case (Suc fuel)
  obtain st s1 where it: "crawl_iter c e s = (st, s1)"
    by (cases "crawl_iter c e s")
  show ?case
  proof (cases "st = RUNNING")
    case True
    with it Suc.prems have "crawl_loop fuel c e s1 = Some r"
      by simp
    from Suc.IH [OF this] it True show ?thesis
      by simp
  next
    case False
    with it Suc.prems have "r = (st, s1)"
      by (cases st) simp_all
    with it False show ?thesis
      by (cases st) simp_all
  qed
qed

lemma crawl_iterate_counter:
  assumes "1 \<le> max_empty_pages c"
  shows "0 \<le> empty_pages_count s \<Longrightarrow> empty_pages_count s < max_empty_pages c \<Longrightarrow>
    crawl_iterate n c e s = (st, s') \<Longrightarrow>
    0 \<le> empty_pages_count s' \<and> empty_pages_count s' \<le> max_empty_pages c
    \<and> (st = TERMINATED_NO_CONTENT) = (empty_pages_count s' = max_empty_pages c)"
proof (induction n arbitrary: s)
  case 0
  then show ?case by auto
next
  case (Suc n)
  obtain st1 s1 where it: "crawl_iter c e s = (st1, s1)"
    by (cases "crawl_iter c e s")
  from crawl_iter_effect [OF it]
  have cnt: "empty_pages_count s1 =
      (case page_yield c e (page_num s) of Not_counted \<Rightarrow> empty_pages_count s | Records r \<Rightarrow> 0
       | Articles_only \<Rightarrow> 0
       | Fetch_failed \<Rightarrow> empty_pages_count s + 1 | Zero_records \<Rightarrow> empty_pages_count s + 1)"
    and stop: "(st1 = TERMINATED_NO_CONTENT) =
      ((page_yield c e (page_num s) = Fetch_failed \<or> page_yield c e (page_num s) = Zero_records)
        \<and> max_empty_pages c \<le> empty_pages_count s + 1)"
    by (simp_all add: page_effect_def)
  have now: "0 \<le> empty_pages_count s1 \<and> empty_pages_count s1 \<le> max_empty_pages c
      \<and> (st1 = TERMINATED_NO_CONTENT) = (empty_pages_count s1 = max_empty_pages c)"
    using cnt stop assms Suc.prems(1,2) by (cases "page_yield c e (page_num s)") auto
  show ?case
  proof (cases "st1 = RUNNING")
    case True
    with it Suc.prems(3) have nxt: "crawl_iterate n c e s1 = (st, s')"
      by simp
    from now True have "0 \<le> empty_pages_count s1" "empty_pages_count s1 < max_empty_pages c"
      by auto
    then show ?thesis
      using nxt by (rule Suc.IH)
  next
    case False
    with it Suc.prems(3) have "st = st1" "s' = s1"
      by (cases st1; simp)+
    with now show ?thesis by simp
  qed
qed


subsection \<open>Runs\<close>

text \<open>
  C1. In every iteration the counter of consecutive empty pages is set by what the
  page yields: a page with at least one record sets it to 0 (also when its data has
  articles and no key \<^verbatim>\<open>links\<close>), a page that could not be fetched (or came back
  empty) and a page without records add one, and an exception before the page's data
  was judged leaves it as it was. In a run with \<open>max_empty_pages \<ge> 1\<close> the counter
  stays between 0 and \<open>max_empty_pages\<close>, and after any number of iterations the run
  has stopped for lack of content exactly when the counter has reached
  \<open>max_empty_pages\<close>; so has a run that ended.
\<close>

theorem empty_pages_counter:
  "empty_pages_count (snd (crawl_iter c e s)) =
     (case page_yield c e (page_num s) of
        Records r \<Rightarrow> 0
      | Articles_only \<Rightarrow> 0
      | Fetch_failed \<Rightarrow> empty_pages_count s + 1
      | Zero_records \<Rightarrow> empty_pages_count s + 1
      | Not_counted \<Rightarrow> empty_pages_count s)
   \<and> (1 \<le> max_empty_pages c \<longrightarrow>
        (fst (crawl_iterate n c e (crawl_start c st0)) = TERMINATED_NO_CONTENT)
          = (empty_pages_count (snd (crawl_iterate n c e (crawl_start c st0))) = max_empty_pages c)
        \<and> 0 \<le> empty_pages_count (snd (crawl_iterate n c e (crawl_start c st0)))
        \<and> empty_pages_count (snd (crawl_iterate n c e (crawl_start c st0))) \<le> max_empty_pages c)
   \<and> (1 \<le> max_empty_pages c \<and> crawl_loop fuel c e (crawl_start c st0) = Some (st, s') \<longrightarrow>
        (st = TERMINATED_NO_CONTENT) = (empty_pages_count s' = max_empty_pages c))"
proof (intro conjI impI)
  obtain st1 s1 where it: "crawl_iter c e s = (st1, s1)"
    by (cases "crawl_iter c e s")
  from crawl_iter_effect [OF it] show "empty_pages_count (snd (crawl_iter c e s)) =
     (case page_yield c e (page_num s) of
        Records r \<Rightarrow> 0
      | Articles_only \<Rightarrow> 0
      | Fetch_failed \<Rightarrow> empty_pages_count s + 1
      | Zero_records \<Rightarrow> empty_pages_count s + 1
      | Not_counted \<Rightarrow> empty_pages_count s)"
    by (cases "page_yield c e (page_num s)") (simp_all add: page_effect_def it)
next
  assume m: "1 \<le> max_empty_pages c"
  obtain stn sn where run: "crawl_iterate n c e (crawl_start c st0) = (stn, sn)"
    by (cases "crawl_iterate n c e (crawl_start c st0)")
  have "0 \<le> empty_pages_count (crawl_start c st0)"
    and "empty_pages_count (crawl_start c st0) < max_empty_pages c"
    using m by (simp_all add: crawl_start_def)
  from crawl_iterate_counter [OF m this run]
  show "(fst (crawl_iterate n c e (crawl_start c st0)) = TERMINATED_NO_CONTENT)
          = (empty_pages_count (snd (crawl_iterate n c e (crawl_start c st0))) = max_empty_pages c)"
    and "0 \<le> empty_pages_count (snd (crawl_iterate n c e (crawl_start c st0)))"
    and "empty_pages_count (snd (crawl_iterate n c e (crawl_start c st0))) \<le> max_empty_pages c"
    by (simp_all add: run)
next
  assume a: "1 \<le> max_empty_pages c \<and> crawl_loop fuel c e (crawl_start c st0) = Some (st, s')"
  then have m: "1 \<le> max_empty_pages c"
    and run: "crawl_iterate fuel c e (crawl_start c st0) = (st, s')"
    using crawl_loop_iterate [of fuel c e "crawl_start c st0" "(st, s')"] by simp_all
  have "0 \<le> empty_pages_count (crawl_start c st0)"
    and "empty_pages_count (crawl_start c st0) < max_empty_pages c"
    using m by (simp_all add: crawl_start_def)
  from crawl_iterate_counter [OF m this run]
  show "(st = TERMINATED_NO_CONTENT) = (empty_pages_count s' = max_empty_pages c)"
    by simp
qed

theorem empty_pages_counter_witness:
  "crawl_loop 9 demo_config demo_env (crawl_start demo_config init_stats) \<noteq> None
   \<and> fst (the (crawl_loop 9 demo_config demo_env (crawl_start demo_config init_stats))) \<noteq> TERMINATED_NO_CONTENT
   \<and> empty_pages_count (snd (the (crawl_loop 9 demo_config demo_env (crawl_start demo_config init_stats))))
       \<noteq> max_empty_pages demo_config
   \<and> fst (crawl_iterate 5 (demo_config\<lparr>max_empty_pages := 2\<rparr>) demo_env
         (crawl_start (demo_config\<lparr>max_empty_pages := 2\<rparr>) init_stats)) = TERMINATED_NO_CONTENT
   \<and> empty_pages_count (snd (crawl_iterate 5 (demo_config\<lparr>max_empty_pages := 2\<rparr>) demo_env
         (crawl_start (demo_config\<lparr>max_empty_pages := 2\<rparr>) init_stats))) = 2"
proof -
  let ?c2 = "demo_config\<lparr>max_empty_pages := 2\<rparr>"
  define st where "st = fst (the (crawl_loop 9 demo_config demo_env (crawl_start demo_config init_stats)))"
  define s' where "s' = snd (the (crawl_loop 9 demo_config demo_env (crawl_start demo_config init_stats)))"
  have "crawl_loop 9 demo_config demo_env (crawl_start demo_config init_stats)
      = Some (the (crawl_loop 9 demo_config demo_env (crawl_start demo_config init_stats)))"
    by code_simp
  then have run: "crawl_loop 9 demo_config demo_env (crawl_start demo_config init_stats) = Some (st, s')"
    by (simp add: st_def s'_def)
  have st: "st = TERMINATED_LAST_PAGE"
    unfolding st_def by code_simp
  have m: "1 \<le> max_empty_pages demo_config" "1 \<le> max_empty_pages ?c2"
    by code_simp+
  from empty_pages_counter [of demo_config demo_env s' 0 init_stats 9 st s'] m run
  have "(st = TERMINATED_NO_CONTENT) = (empty_pages_count s' = max_empty_pages demo_config)"
    by blast
  with st have 1: "empty_pages_count s' \<noteq> max_empty_pages demo_config"
    by simp
  have stop: "fst (crawl_iterate 5 ?c2 demo_env (crawl_start ?c2 init_stats)) = TERMINATED_NO_CONTENT"
    by code_simp
  from empty_pages_counter [of ?c2 demo_env s' 5 init_stats 0 st s'] m
  have "(fst (crawl_iterate 5 ?c2 demo_env (crawl_start ?c2 init_stats)) = TERMINATED_NO_CONTENT)
      = (empty_pages_count (snd (crawl_iterate 5 ?c2 demo_env (crawl_start ?c2 init_stats))) = max_empty_pages ?c2)"
    by blast
  with stop have 2: "empty_pages_count (snd (crawl_iterate 5 ?c2 demo_env (crawl_start ?c2 init_stats))) = 2"
    by (simp add: demo_config_def)
  from run st 1 stop 2 show ?thesis
    by simp
qed

lemma page_yield_with_links:
  assumes "\<forall>html d. parse_page e html = Inr d \<longrightarrow> key_links d \<noteq> None"
  shows "page_yield c e p \<noteq> Articles_only"
proof -
  have "data_yield p u d \<noteq> Articles_only" if "parse_page e html = Inr d" for u html d
  proof -
    from that assms obtain lks where "key_links d = Some lks"
      by blast
    then show ?thesis
      by (simp add: data_yield_def split: option.splits)
  qed
  then have "html_yield e p u html \<noteq> Articles_only" for u html
    by (simp add: html_yield_def split: sum.splits)
  then show ?thesis
    by (simp add: page_yield_def split: sum.splits option.splits)
qed

lemma crawl_iterate_total_data:
  "crawl_iterate n c e s = (st, s') \<Longrightarrow>
   total_data (stats s') - sum_list (map record_count (all_data s'))
     = total_data (stats s) - sum_list (map record_count (all_data s))"
proof (induction n arbitrary: s)
  case 0
  then show ?case by simp
next
  case (Suc n)
  obtain st1 s1 where it: "crawl_iter c e s = (st1, s1)"
    by (cases "crawl_iter c e s")
  from crawl_iter_effect [OF it]
  have now: "total_data (stats s1) - sum_list (map record_count (all_data s1))
        = total_data (stats s) - sum_list (map record_count (all_data s))"
    by (simp add: page_effect_def)
  show ?case
  proof (cases "st1 = RUNNING")
    case True
    with it Suc.prems have "crawl_iterate n c e s1 = (st, s')"
      by simp
    from Suc.IH [OF this] now show ?thesis
      by simp
  next
    case False
    with it Suc.prems have "st = st1" "s' = s1"
      by (cases st1; simp)+
    with now show ?thesis by simp
  qed
qed

lemma crawl_iterate_pages_crawled:
  assumes links: "\<forall>html d. parse_page e html = Inr d \<longrightarrow> key_links d \<noteq> None"
  shows "crawl_iterate n c e s = (st, s') \<Longrightarrow>
    pages_crawled (stats s') - int (length (all_data s'))
      = pages_crawled (stats s) - int (length (all_data s))"
proof (induction n arbitrary: s)
  case 0
  then show ?case by simp
next
  case (Suc n)
  obtain st1 s1 where it: "crawl_iter c e s = (st1, s1)"
    by (cases "crawl_iter c e s")
  from crawl_iter_effect [OF it] page_yield_with_links [OF links, of c "page_num s"]
  have now: "pages_crawled (stats s1) - int (length (all_data s1))
      = pages_crawled (stats s) - int (length (all_data s))"
    by (simp add: page_effect_def)
  show ?case
  proof (cases "st1 = RUNNING")
    case True
    with it Suc.prems have "crawl_iterate n c e s1 = (st, s')"
      by simp
    from Suc.IH [OF this] now show ?thesis
      by simp
  next
    case False
    with it Suc.prems have "st = st1" "s' = s1"
      by (cases st1; simp)+
    with now show ?thesis by simp
  qed
qed

lemma final_save_frame:
  assumes "final_save e (st, s0) = (r, s)"
  shows "all_data s = all_data s0" and "stats s = stats s0" and "page_num s = page_num s0"
    and "empty_pages_count s = empty_pages_count s0"
    and "saved_batches (calls s) = saved_batches (calls s0) @ (if all_data s0 = [] then [] else [all_data s0])"
  using assms
  by (auto simp: final_save_def Let_def saved_batches_append split: if_splits sum.splits)

lemma crawl_Some:
  assumes "crawl fuel c e st0 = Some (r, s)"
  obtains st s0 where "crawl_loop fuel c e (crawl_start c st0) = Some (st, s0)"
    and "final_save e (st, s0) = (r, s)"
  using assms by (auto simp: crawl_def)

text \<open>
  C10, as amended. In a run of \<^verbatim>\<open>crawl\<close>, after any number of iterations and at
  the end, \<^verbatim>\<open>total_data\<close> has grown since the start of the run by the sum of the
  record counts (articles plus links) of the results in \<^verbatim>\<open>all_data\<close>; and with a
  parser whose dict always has the key \<^verbatim>\<open>links\<close>, as that of the class has,
  \<^verbatim>\<open>pages_crawled\<close> has grown by the number of results in \<^verbatim>\<open>all_data\<close>. The
  statistics of a crawler fresh from \<^verbatim>\<open>__init__\<close> start at zero, so there the two
  statistics are that sum and that number.
\<close>

theorem statistics_match_buffer:
  "total_data (stats (snd (crawl_iterate n c e (crawl_start c st0))))
     = total_data st0
       + sum_list (map record_count (all_data (snd (crawl_iterate n c e (crawl_start c st0)))))
   \<and> ((\<forall>html d. parse_page e html = Inr d \<longrightarrow> key_links d \<noteq> None) \<longrightarrow>
        pages_crawled (stats (snd (crawl_iterate n c e (crawl_start c st0))))
          = pages_crawled st0 + int (length (all_data (snd (crawl_iterate n c e (crawl_start c st0))))))
   \<and> (crawl fuel c e st0 = Some (r, s) \<longrightarrow>
        total_data (stats s) = total_data st0 + sum_list (map record_count (all_data s))
        \<and> ((\<forall>html d. parse_page e html = Inr d \<longrightarrow> key_links d \<noteq> None) \<longrightarrow>
             pages_crawled (stats s) = pages_crawled st0 + int (length (all_data s))))
   \<and> pages_crawled init_stats = 0 \<and> total_data init_stats = 0"
proof (intro conjI impI)
  obtain st s' where run: "crawl_iterate n c e (crawl_start c st0) = (st, s')"
    by (cases "crawl_iterate n c e (crawl_start c st0)")
  from crawl_iterate_total_data [OF run]
  have "total_data (stats s') = total_data st0 + sum_list (map record_count (all_data s'))"
    by (simp add: crawl_start_def)
  then show "total_data (stats (snd (crawl_iterate n c e (crawl_start c st0))))
     = total_data st0
       + sum_list (map record_count (all_data (snd (crawl_iterate n c e (crawl_start c st0)))))"
    unfolding run by simp
  assume "\<forall>html d. parse_page e html = Inr d \<longrightarrow> key_links d \<noteq> None"
  from crawl_iterate_pages_crawled [OF this run]
  have "pages_crawled (stats s') = pages_crawled st0 + int (length (all_data s'))"
    by (simp add: crawl_start_def)
  then show "pages_crawled (stats (snd (crawl_iterate n c e (crawl_start c st0))))
      = pages_crawled st0 + int (length (all_data (snd (crawl_iterate n c e (crawl_start c st0)))))"
    unfolding run by simp
next
  assume "crawl fuel c e st0 = Some (r, s)"
  then obtain st s0 where loop: "crawl_loop fuel c e (crawl_start c st0) = Some (st, s0)"
    and fin: "final_save e (st, s0) = (r, s)"
    by (rule crawl_Some)
  from crawl_loop_iterate [OF loop] have run: "crawl_iterate fuel c e (crawl_start c st0) = (st, s0)"
    by simp
  from crawl_iterate_total_data [OF run] final_save_frame(1,2) [OF fin]
  show "total_data (stats s) = total_data st0 + sum_list (map record_count (all_data s))"
    by (simp add: crawl_start_def)
  assume "\<forall>html d. parse_page e html = Inr d \<longrightarrow> key_links d \<noteq> None"
  from crawl_iterate_pages_crawled [OF this run] final_save_frame(1,2) [OF fin]
  show "pages_crawled (stats s) = pages_crawled st0 + int (length (all_data s))"
    by (simp add: crawl_start_def)
next
  show "pages_crawled init_stats = 0" and "total_data init_stats = 0"
    by (simp_all add: init_stats_def)
qed

theorem statistics_match_buffer_witness:
  "crawl 9 demo_config demo_env init_stats \<noteq> None
   \<and> pages_crawled (stats (snd (the (crawl 9 demo_config demo_env init_stats)))) = 5
   \<and> length (all_data (snd (the (crawl 9 demo_config demo_env init_stats)))) = 5
   \<and> total_data (stats (snd (the (crawl 9 demo_config demo_env init_stats))))
     = sum_list (map record_count (all_data (snd (the (crawl 9 demo_config demo_env init_stats)))))"
proof -
  define r where "r = fst (the (crawl 9 demo_config demo_env init_stats))"
  define s where "s = snd (the (crawl 9 demo_config demo_env init_stats))"
  have "crawl 9 demo_config demo_env init_stats = Some (the (crawl 9 demo_config demo_env init_stats))"
    by code_simp
  then have run: "crawl 9 demo_config demo_env init_stats = Some (r, s)"
    by (simp add: r_def s_def)
  have len: "length (all_data s) = 5"
    unfolding s_def by code_simp
  have links: "\<forall>html d. parse_page demo_env html = Inr d \<longrightarrow> key_links d \<noteq> None"
    by (auto simp: demo_env_def split: if_splits)
  from statistics_match_buffer [of 0 demo_config demo_env init_stats 9 r s] run links
  have "pages_crawled (stats s) = pages_crawled init_stats + int (length (all_data s))"
    and "total_data (stats s) = total_data init_stats + sum_list (map record_count (all_data s))"
    and "pages_crawled init_stats = 0" and "total_data init_stats = 0"
    by blast+
  moreover from run have "crawl 9 demo_config demo_env init_stats \<noteq> None"
    by simp
  ultimately show ?thesis
    using len by (simp add: s_def)
qed

text \<open>
  The claim as first stated fails in two ways. \<^verbatim>\<open>self.stats\<close> is created by
  \<^verbatim>\<open>__init__\<close> and \<^verbatim>\<open>crawl\<close> does not reset it: on a crawler that has crawled 5
  pages before, the run over the demo site ends with \<^verbatim>\<open>pages_crawled\<close> at 10 and 5
  results in \<^verbatim>\<open>all_data\<close>. And with a parser whose dict has articles and no key
  \<^verbatim>\<open>links\<close>, as \<^verbatim>\<open>custom_parse\<close> of \<^verbatim>\<open>example_usage\<close>, line 183 counts the page
  and line 184 raises \<^verbatim>\<open>KeyError\<close>: after one iteration of a fresh crawler
  \<^verbatim>\<open>pages_crawled\<close> is 1 and \<^verbatim>\<open>all_data\<close> is empty.
\<close>

theorem statistics_counterexample:
  "pages_crawled (stats (snd (the (crawl 9 demo_config demo_env (init_stats\<lparr>pages_crawled := 5\<rparr>))))) = 10
   \<and> length (all_data (snd (the (crawl 9 demo_config demo_env (init_stats\<lparr>pages_crawled := 5\<rparr>))))) = 5
   \<and> pages_crawled (stats (snd (crawl_iter demo_config
        (demo_env\<lparr>parse_page := (\<lambda>html. Inr \<lparr>key_links = None,
           key_articles = Some [(''title'', ''content'')], key_page_size = Some (length html)\<rparr>)\<rparr>)
        (crawl_start demo_config init_stats)))) = 1
   \<and> all_data (snd (crawl_iter demo_config
        (demo_env\<lparr>parse_page := (\<lambda>html. Inr \<lparr>key_links = None,
           key_articles = Some [(''title'', ''content'')], key_page_size = Some (length html)\<rparr>)\<rparr>)
        (crawl_start demo_config init_stats))) = []
   \<and> errors (stats (snd (crawl_iter demo_config
        (demo_env\<lparr>parse_page := (\<lambda>html. Inr \<lparr>key_links = None,
           key_articles = Some [(''title'', ''content'')], key_page_size = Some (length html)\<rparr>)\<rparr>)
        (crawl_start demo_config init_stats)))) = 1"
  by code_simp

lemma html_yield_counted: "html_yield e p u html \<noteq> Fetch_failed"
  by (simp add: html_yield_def data_yield_def split: sum.splits option.splits)

lemma crawl_try_fetch_failed:
  assumes "page_yield c e (page_num s) = Fetch_failed"
  shows "\<exists>u evs. crawl_try c e s = no_html c (s\<lparr>calls := calls s @ [Call_fetch_page u evs]\<rparr>)"
proof (cases "build_url (format_beyond e) (base_url c) (page_num s)")
  case (Inl x)
  with assms show ?thesis
    by (simp add: page_yield_def)
next
  case url: (Inr u)
  obtain r evs where fp: "fetch_page (max_retries c) (session_get e (page_num s)) u 0 = (r, evs)"
    by (cases "fetch_page (max_retries c) (session_get e (page_num s)) u 0")
  from assms url fp have "r = Inr None \<or> r = Inr (Some [])"
    by (auto simp: page_yield_def html_yield_counted split: sum.splits option.splits if_splits)
  with url fp have "crawl_try c e s = no_html c (s\<lparr>calls := calls s @ [Call_fetch_page u evs]\<rparr>)"
    by (auto simp: crawl_try_def Let_def)
  then show ?thesis
    by blast
qed

text \<open>
  C4, as amended. When the fetch of a page fails after all retries (or returns an
  empty body), the iteration adds one to the counter of consecutive empty pages and
  changes nothing else: \<^verbatim>\<open>self.stats\<close>, with its error count, and \<^verbatim>\<open>all_data\<close> stay
  as they were. Its only call is \<^verbatim>\<open>fetch_page\<close>: no delay, no next-page test. It
  stops the run when the counter has reached \<open>max_empty_pages\<close> and otherwise goes on
  with the next page number.
\<close>

theorem fetch_failure_step:
  "page_yield c e (page_num s) = Fetch_failed \<longrightarrow>
     empty_pages_count (snd (crawl_iter c e s)) = empty_pages_count s + 1
     \<and> stats (snd (crawl_iter c e s)) = stats s
     \<and> all_data (snd (crawl_iter c e s)) = all_data s
     \<and> (\<exists>u evs. calls (snd (crawl_iter c e s)) = calls s @ [Call_fetch_page u evs])
     \<and> fst (crawl_iter c e s) =
         (if max_empty_pages c \<le> empty_pages_count s + 1 then TERMINATED_NO_CONTENT else RUNNING)
     \<and> page_num (snd (crawl_iter c e s)) =
         (if max_empty_pages c \<le> empty_pages_count s + 1 then page_num s else page_num s + 1)"
proof
  assume "page_yield c e (page_num s) = Fetch_failed"
  then obtain u evs
    where tr: "crawl_try c e s = no_html c (s\<lparr>calls := calls s @ [Call_fetch_page u evs]\<rparr>)"
    using crawl_try_fetch_failed by blast
  show "empty_pages_count (snd (crawl_iter c e s)) = empty_pages_count s + 1
     \<and> stats (snd (crawl_iter c e s)) = stats s
     \<and> all_data (snd (crawl_iter c e s)) = all_data s
     \<and> (\<exists>u evs. calls (snd (crawl_iter c e s)) = calls s @ [Call_fetch_page u evs])
     \<and> fst (crawl_iter c e s) =
         (if max_empty_pages c \<le> empty_pages_count s + 1 then TERMINATED_NO_CONTENT else RUNNING)
     \<and> page_num (snd (crawl_iter c e s)) =
         (if max_empty_pages c \<le> empty_pages_count s + 1 then page_num s else page_num s + 1)"
    by (simp add: crawl_iter_def tr no_html_def Let_def)
qed

theorem fetch_failure_step_witness:
  "page_yield demo_config demo_env 4 = Fetch_failed
   \<and> empty_pages_count (snd (crawl_iter demo_config demo_env
        (crawl_start (demo_config\<lparr>start_page := 4\<rparr>) init_stats))) = 1
   \<and> stats (snd (crawl_iter demo_config demo_env
        (crawl_start (demo_config\<lparr>start_page := 4\<rparr>) init_stats))) = init_stats"
proof -
  let ?s = "crawl_start (demo_config\<lparr>start_page := 4\<rparr>) init_stats"
  have p: "page_num ?s = 4" and n: "empty_pages_count ?s = 0" and st: "stats ?s = init_stats"
    by (simp_all add: crawl_start_def)
  have y: "page_yield demo_config demo_env 4 = Fetch_failed"
    by code_simp
  with fetch_failure_step [of demo_config demo_env ?s] p n st
  have "empty_pages_count (snd (crawl_iter demo_config demo_env ?s)) = 1"
    and "stats (snd (crawl_iter demo_config demo_env ?s)) = init_stats"
    by simp_all
  with y show ?thesis
    by simp
qed

text \<open>
  The claim as first stated fails: page 4 of the demo site cannot be fetched, and the
  iteration leaves the error count at 0 while the counter of empty pages goes to 1.
\<close>

theorem fetch_failure_counterexample:
  "fst (fetch_page (max_retries demo_config) (session_get demo_env 4) ''https://example.com/blog?page=4'' 0)
     = Inr None
   \<and> errors (stats (crawl_start (demo_config\<lparr>start_page := 4\<rparr>) init_stats)) = 0
   \<and> errors (stats (snd (crawl_iter demo_config demo_env
        (crawl_start (demo_config\<lparr>start_page := 4\<rparr>) init_stats)))) = 0
   \<and> empty_pages_count (snd (crawl_iter demo_config demo_env
        (crawl_start (demo_config\<lparr>start_page := 4\<rparr>) init_stats))) = 1"
  by code_simp

text \<open>
  C9. The error count grows by one exactly in the iterations whose \<^verbatim>\<open>try\<close> body
  raises an \<^verbatim>\<open>Exception\<close>. Such an iteration is caught, the loop keeps running and
  goes on with the next page number, and the handler leaves the counter of empty
  pages (and \<^verbatim>\<open>all_data\<close>) as the body left them at the point of the exception; when
  the exception came before the page's data was judged, as an error of the parser
  does, the counter is the one the iteration started with.
\<close>

theorem processing_error_step:
  "errors (stats (snd (crawl_iter c e s)))
     = errors (stats s) + (if fst (crawl_try c e s) = Raise Exception then 1 else 0)
   \<and> (crawl_try c e s = (Raise Exception, s1) \<longrightarrow>
        crawl_iter c e s =
          (RUNNING, s1\<lparr>stats := (stats s1)\<lparr>errors := errors (stats s1) + 1\<rparr>, page_num := page_num s1 + 1\<rparr>)
        \<and> errors (stats (snd (crawl_iter c e s))) = errors (stats s) + 1
        \<and> page_num (snd (crawl_iter c e s)) = page_num s + 1
        \<and> empty_pages_count (snd (crawl_iter c e s)) = empty_pages_count s1
        \<and> all_data (snd (crawl_iter c e s)) = all_data s1)
   \<and> (fst (crawl_try c e s) = Raise Exception \<and> page_yield c e (page_num s) = Not_counted \<longrightarrow>
        empty_pages_count (snd (crawl_iter c e s)) = empty_pages_count s)"
proof (intro conjI impI)
  obtain st s' where it: "crawl_iter c e s = (st, s')"
    by (cases "crawl_iter c e s")
  from crawl_iter_effect [OF it]
  show "errors (stats (snd (crawl_iter c e s)))
     = errors (stats s) + (if fst (crawl_try c e s) = Raise Exception then 1 else 0)"
    by (simp add: page_effect_def it)
next
  assume tr: "crawl_try c e s = (Raise Exception, s1)"
  from crawl_try_effect [OF tr]
  have s1: "errors (stats s1) = errors (stats s)" "page_num s1 = page_num s"
    by (simp_all add: page_effect_def)
  show "crawl_iter c e s =
      (RUNNING, s1\<lparr>stats := (stats s1)\<lparr>errors := errors (stats s1) + 1\<rparr>, page_num := page_num s1 + 1\<rparr>)"
    by (simp add: crawl_iter_def tr)
  then show "errors (stats (snd (crawl_iter c e s))) = errors (stats s) + 1"
    and "page_num (snd (crawl_iter c e s)) = page_num s + 1"
    and "empty_pages_count (snd (crawl_iter c e s)) = empty_pages_count s1"
    and "all_data (snd (crawl_iter c e s)) = all_data s1"
    by (simp_all add: s1)
next
  assume a: "fst (crawl_try c e s) = Raise Exception \<and> page_yield c e (page_num s) = Not_counted"
  obtain st s' where it: "crawl_iter c e s = (st, s')"
    by (cases "crawl_iter c e s")
  from crawl_iter_effect [OF it] a
  show "empty_pages_count (snd (crawl_iter c e s)) = empty_pages_count s"
    by (simp add: page_effect_def it)
qed

theorem processing_error_step_witness:
  "fst (crawl_try demo_config demo_env (crawl_start (demo_config\<lparr>start_page := 6\<rparr>) init_stats))
     = Raise Exception
   \<and> fst (crawl_iter demo_config demo_env (crawl_start (demo_config\<lparr>start_page := 6\<rparr>) init_stats))
     = RUNNING
   \<and> errors (stats (snd (crawl_iter demo_config demo_env
        (crawl_start (demo_config\<lparr>start_page := 6\<rparr>) init_stats)))) = 1
   \<and> page_num (snd (crawl_iter demo_config demo_env
        (crawl_start (demo_config\<lparr>start_page := 6\<rparr>) init_stats))) = 7
   \<and> empty_pages_count (snd (crawl_iter demo_config demo_env
        (crawl_start (demo_config\<lparr>start_page := 6\<rparr>) init_stats))) = 0"
proof -
  let ?s = "crawl_start (demo_config\<lparr>start_page := 6\<rparr>) init_stats"
  define s1 where "s1 = snd (crawl_try demo_config demo_env ?s)"
  have f: "fst (crawl_try demo_config demo_env ?s) = Raise Exception"
    by code_simp
  then have tr: "crawl_try demo_config demo_env ?s = (Raise Exception, s1)"
    by (simp add: s1_def prod_eq_iff)
  have y: "page_yield demo_config demo_env (page_num ?s) = Not_counted"
    by code_simp
  have s: "page_num ?s = 6" "errors (stats ?s) = 0" "empty_pages_count ?s = 0"
    by (simp_all add: crawl_start_def init_stats_def)
  from processing_error_step [of demo_config demo_env ?s s1] tr f y
  have "crawl_iter demo_config demo_env ?s =
      (RUNNING, s1\<lparr>stats := (stats s1)\<lparr>errors := errors (stats s1) + 1\<rparr>, page_num := page_num s1 + 1\<rparr>)"
    and "errors (stats (snd (crawl_iter demo_config demo_env ?s))) = errors (stats ?s) + 1"
    and "page_num (snd (crawl_iter demo_config demo_env ?s)) = page_num ?s + 1"
    and "empty_pages_count (snd (crawl_iter demo_config demo_env ?s)) = empty_pages_count ?s"
    by blast+
  with f s show ?thesis
    by simp
qed

lemma produced_snoc:
  "a \<le> b \<Longrightarrow> produced c e a b = produced c e a (b - 1) @ records_of (page_yield c e b)"
  by (simp add: produced_def upto_rec2)

lemma page_yield_Records:
  assumes "page_yield c e p = Records r"
  shows "page r = p" and "articles (data r) \<noteq> [] \<or> links (data r) \<noteq> []"
  using assms
  by (auto simp: page_yield_def html_yield_def data_yield_def
      split: sum.splits option.splits if_splits)

lemma pages_of_records:
  "map page (concat (map (\<lambda>p. records_of (page_yield c e p)) ps))
     = filter (\<lambda>p. records_of (page_yield c e p) \<noteq> []) ps"
proof (induction ps)
  case Nil
  show ?case by simp
next
  case (Cons p ps)
  then show ?case
    by (cases "page_yield c e p") (simp_all add: page_yield_Records(1))
qed

lemma distinct_produced: "distinct (produced c e a b)"
proof -
  have "distinct (map page (produced c e a b))"
    by (simp add: produced_def pages_of_records)
  then show ?thesis
    by (simp add: distinct_map)
qed

lemma produced_has_records:
  assumes "r \<in> set (produced c e a b)"
  shows "articles (data r) \<noteq> [] \<or> links (data r) \<noteq> []"
proof -
  from assms obtain p where "r \<in> set (records_of (page_yield c e p))"
    by (auto simp: produced_def)
  then have "page_yield c e p = Records r"
    by (cases "page_yield c e p") simp_all
  then show ?thesis
    by (rule page_yield_Records(2))
qed

lemma crawl_iterate_produced:
  "a \<le> page_num s \<Longrightarrow> all_data s = produced c e a (page_num s - 1) \<Longrightarrow>
   crawl_iterate n c e s = (st, s') \<Longrightarrow>
   a \<le> page_num s' \<and>
   all_data s' = produced c e a
     (if st = RUNNING \<or> st = TERMINATED_SAFETY_LIMIT then page_num s' - 1 else page_num s')"
proof (induction n arbitrary: s)
  case 0
  then show ?case by simp
next
  case (Suc n)
  obtain st1 s1 where it: "crawl_iter c e s = (st1, s1)"
    by (cases "crawl_iter c e s")
  from crawl_iter_effect [OF it]
  have d: "all_data s1 = all_data s @ records_of (page_yield c e (page_num s))"
    and p: "page_num s1 = (if st1 = RUNNING \<or> st1 = TERMINATED_SAFETY_LIMIT then page_num s + 1 else page_num s)"
    by (simp_all add: page_effect_def)
  from d Suc.prems(1,2) have all: "all_data s1 = produced c e a (page_num s)"
    by (simp add: produced_snoc)
  show ?case
  proof (cases "st1 = RUNNING")
    case True
    with it Suc.prems(3) have nxt: "crawl_iterate n c e s1 = (st, s')"
      by simp
    from True p all Suc.prems(1) have "a \<le> page_num s1" "all_data s1 = produced c e a (page_num s1 - 1)"
      by simp_all
    then show ?thesis
      using nxt by (rule Suc.IH)
  next
    case False
    with it Suc.prems(3) have "st = st1" "s' = s1"
      by (cases st1; simp)+
    with False p all Suc.prems(1) show ?thesis
      by simp
  qed
qed

lemma set_py_slice_from: "set (py_slice_from i xs) \<subseteq> set xs"
  by (simp add: py_slice_from_def set_drop_subset)

lemma crawl_iterate_saved:
  "(\<forall>b\<in>set (saved_batches (calls s)). set b \<subseteq> set (all_data s)) \<Longrightarrow>
   crawl_iterate n c e s = (st, s') \<Longrightarrow>
   (\<forall>b\<in>set (saved_batches (calls s')). set b \<subseteq> set (all_data s'))"
proof (induction n arbitrary: s)
  case 0
  then show ?case by simp
next
  case (Suc n)
  obtain st1 s1 where it: "crawl_iter c e s = (st1, s1)"
    by (cases "crawl_iter c e s")
  from crawl_iter_effect [OF it]
  have d: "all_data s1 = all_data s @ records_of (page_yield c e (page_num s))"
    by (simp add: page_effect_def)
  from crawl_iter_effect [OF it]
  have b: "set (saved_batches (calls s1)) \<subseteq>
      set (saved_batches (calls s)) \<union> {py_slice_from (- save_interval c) (all_data s1)}"
    by (auto simp: page_effect_def split: if_splits)
  have now: "\<forall>b\<in>set (saved_batches (calls s1)). set b \<subseteq> set (all_data s1)"
  proof
    fix x
    assume "x \<in> set (saved_batches (calls s1))"
    with b consider "x \<in> set (saved_batches (calls s))" | "x = py_slice_from (- save_interval c) (all_data s1)"
      by blast
    then show "set x \<subseteq> set (all_data s1)"
    proof cases
      case 1
      with Suc.prems(1) have "set x \<subseteq> set (all_data s)"
        by blast
      with d show ?thesis by auto
    next
      case 2
      then show ?thesis
        by (simp add: set_py_slice_from)
    qed
  qed
  show ?case
  proof (cases "st1 = RUNNING")
    case True
    with it Suc.prems(2) have "crawl_iterate n c e s1 = (st, s')"
      by simp
    with now show ?thesis
      by (rule Suc.IH)
  next
    case False
    with it Suc.prems(2) have "st = st1" "s' = s1"
      by (cases st1; simp)+
    with now show ?thesis by simp
  qed
qed

lemma crawl_start_run:
  assumes "crawl_iterate n c e (crawl_start c st0) = (st, s)"
  shows "all_data s = produced c e (start_page c)
      (if st = RUNNING \<or> st = TERMINATED_SAFETY_LIMIT then page_num s - 1 else page_num s)"
    and "\<forall>b\<in>set (saved_batches (calls s)). set b \<subseteq> set (all_data s)"
proof -
  have "start_page c \<le> page_num (crawl_start c st0)"
    and "all_data (crawl_start c st0) = produced c e (start_page c) (page_num (crawl_start c st0) - 1)"
    by (simp_all add: crawl_start_def produced_def)
  from crawl_iterate_produced [OF this assms]
  show "all_data s = produced c e (start_page c)
      (if st = RUNNING \<or> st = TERMINATED_SAFETY_LIMIT then page_num s - 1 else page_num s)"
    by simp
  have "\<forall>b\<in>set (saved_batches (calls (crawl_start c st0))). set b \<subseteq> set (all_data (crawl_start c st0))"
    by (simp add: crawl_start_def)
  then show "\<forall>b\<in>set (saved_batches (calls s)). set b \<subseteq> set (all_data s)"
    using assms by (rule crawl_iterate_saved)
qed

text \<open>
  C2, as amended. When a run ends, \<^verbatim>\<open>all_data\<close> holds exactly the results of the
  pages that yielded records, from \<open>start_page\<close> to the last page visited, each once
  and in order; the batches given to \<^verbatim>\<open>save_data\<close>, taken together, contain
  exactly these results, and the last of them, the batch \<^verbatim>\<open>final\<close>, is the whole
  of \<^verbatim>\<open>all_data\<close>. An iteration saves a batch only for a page with records whose
  number is a multiple of \<open>save_interval\<close>; the batch is the slice
  \<^verbatim>\<open>all_data[-save_interval:]\<close> (for a positive interval the last \<open>save_interval\<close>
  results), and \<^verbatim>\<open>all_data\<close> is never cleared, it only grows.
\<close>

theorem saved_batches_cover:
  "(crawl_loop fuel c e (crawl_start c st0) = Some (st, s0) \<and> final_save e (st, s0) = (r, s) \<longrightarrow>
      all_data s = produced c e (start_page c)
        (if st = TERMINATED_SAFETY_LIMIT then page_num s - 1 else page_num s)
      \<and> distinct (all_data s)
      \<and> \<Union> (set ` set (saved_batches (calls s))) = set (all_data s)
      \<and> (all_data s \<noteq> [] \<longrightarrow>
           saved_batches (calls s) \<noteq> [] \<and> last (saved_batches (calls s)) = all_data s))
   \<and> saved_batches (calls (snd (crawl_iter c e s1))) =
       saved_batches (calls s1) @
         (case page_yield c e (page_num s1) of
            Records r1 \<Rightarrow>
              if save_interval c \<noteq> 0 \<and> page_num s1 mod save_interval c = 0
              then [py_slice_from (- save_interval c) (all_data s1 @ [r1])] else []
          | _ \<Rightarrow> [])
   \<and> all_data (snd (crawl_iter c e s1)) = all_data s1 @ records_of (page_yield c e (page_num s1))
   \<and> (0 < save_interval c \<longrightarrow>
        py_slice_from (- save_interval c) xs = drop (length xs - nat (save_interval c)) xs)"
proof (intro conjI)
  show "crawl_loop fuel c e (crawl_start c st0) = Some (st, s0) \<and> final_save e (st, s0) = (r, s) \<longrightarrow>
      all_data s = produced c e (start_page c)
        (if st = TERMINATED_SAFETY_LIMIT then page_num s - 1 else page_num s)
      \<and> distinct (all_data s)
      \<and> \<Union> (set ` set (saved_batches (calls s))) = set (all_data s)
      \<and> (all_data s \<noteq> [] \<longrightarrow>
           saved_batches (calls s) \<noteq> [] \<and> last (saved_batches (calls s)) = all_data s)"
  proof
    assume a: "crawl_loop fuel c e (crawl_start c st0) = Some (st, s0) \<and> final_save e (st, s0) = (r, s)"
    then have fin: "final_save e (st, s0) = (r, s)"
      by simp
    from a crawl_loop_iterate [of fuel c e "crawl_start c st0" "(st, s0)"]
    have run: "crawl_iterate fuel c e (crawl_start c st0) = (st, s0)" and st: "st \<noteq> RUNNING"
      by simp_all
    note frame = final_save_frame [OF fin]
    from crawl_start_run(1) [OF run] st frame(1,3)
    have all: "all_data s = produced c e (start_page c)
        (if st = TERMINATED_SAFETY_LIMIT then page_num s - 1 else page_num s)"
      by simp
    then have dist: "distinct (all_data s)"
      by (simp add: distinct_produced)
    from crawl_start_run(2) [OF run] frame(1)
    have sub: "\<forall>b\<in>set (saved_batches (calls s0)). set b \<subseteq> set (all_data s)"
      by simp
    have cover: "\<Union> (set ` set (saved_batches (calls s))) = set (all_data s)"
    proof (cases "all_data s0 = []")
      case True
      with sub frame(1,5) show ?thesis by auto
    next
      case False
      with sub frame(1,5) show ?thesis by auto
    qed
    have final: "all_data s \<noteq> [] \<longrightarrow>
        saved_batches (calls s) \<noteq> [] \<and> last (saved_batches (calls s)) = all_data s"
      using frame(1,5) by simp
    from all dist cover final show "all_data s = produced c e (start_page c)
        (if st = TERMINATED_SAFETY_LIMIT then page_num s - 1 else page_num s)
      \<and> distinct (all_data s)
      \<and> \<Union> (set ` set (saved_batches (calls s))) = set (all_data s)
      \<and> (all_data s \<noteq> [] \<longrightarrow>
           saved_batches (calls s) \<noteq> [] \<and> last (saved_batches (calls s)) = all_data s)"
      by blast
  qed
next
  obtain st1 s2 where it: "crawl_iter c e s1 = (st1, s2)"
    by (cases "crawl_iter c e s1")
  from crawl_iter_effect [OF it]
  show "saved_batches (calls (snd (crawl_iter c e s1))) =
       saved_batches (calls s1) @
         (case page_yield c e (page_num s1) of
            Records r1 \<Rightarrow>
              if save_interval c \<noteq> 0 \<and> page_num s1 mod save_interval c = 0
              then [py_slice_from (- save_interval c) (all_data s1 @ [r1])] else []
          | _ \<Rightarrow> [])"
    by (cases "page_yield c e (page_num s1)") (simp_all add: page_effect_def it)
  from crawl_iter_effect [OF it]
  show "all_data (snd (crawl_iter c e s1)) = all_data s1 @ records_of (page_yield c e (page_num s1))"
    by (simp add: page_effect_def it)
next
  show "0 < save_interval c \<longrightarrow>
      py_slice_from (- save_interval c) xs = drop (length xs - nat (save_interval c)) xs"
    by (simp add: py_slice_from_def nat_diff_distrib')
qed

theorem saved_batches_cover_witness:
  "map (map page) (saved_batches (calls (snd (the (crawl 9 demo_config demo_env init_stats)))))
     = [[1, 2], [7, 8], [1, 2, 3, 7, 8]]
   \<and> \<Union> (set ` set (saved_batches (calls (snd (the (crawl 9 demo_config demo_env init_stats))))))
     = set (all_data (snd (the (crawl 9 demo_config demo_env init_stats))))
   \<and> distinct (all_data (snd (the (crawl 9 demo_config demo_env init_stats))))
   \<and> last (saved_batches (calls (snd (the (crawl 9 demo_config demo_env init_stats)))))
     = all_data (snd (the (crawl 9 demo_config demo_env init_stats)))"
proof -
  define st where "st = fst (the (crawl_loop 9 demo_config demo_env (crawl_start demo_config init_stats)))"
  define s0 where "s0 = snd (the (crawl_loop 9 demo_config demo_env (crawl_start demo_config init_stats)))"
  define r where "r = fst (the (crawl 9 demo_config demo_env init_stats))"
  define s where "s = snd (the (crawl 9 demo_config demo_env init_stats))"
  have "crawl_loop 9 demo_config demo_env (crawl_start demo_config init_stats)
      = Some (the (crawl_loop 9 demo_config demo_env (crawl_start demo_config init_stats)))"
    by code_simp
  then have run: "crawl_loop 9 demo_config demo_env (crawl_start demo_config init_stats) = Some (st, s0)"
    by (simp add: st_def s0_def)
  then have fin: "final_save demo_env (st, s0) = (r, s)"
    by (simp add: crawl_def r_def s_def)
  have pages: "map (map page) (saved_batches (calls s)) = [[1, 2], [7, 8], [1, 2, 3, 7, 8]]"
    and ne: "all_data s \<noteq> []"
    unfolding s_def by code_simp+
  from saved_batches_cover [of 9 demo_config demo_env init_stats st s0 r s] run fin
  have "distinct (all_data s)" and "\<Union> (set ` set (saved_batches (calls s))) = set (all_data s)"
    and "all_data s \<noteq> [] \<longrightarrow> saved_batches (calls s) \<noteq> [] \<and> last (saved_batches (calls s)) = all_data s"
    by blast+
  with pages ne show ?thesis
    by (simp add: s_def)
qed

text \<open>
  The claim as first stated fails: on the demo site, with \<open>save_interval = 2\<close>, the
  results of pages 1, 2, 7 and 8 are saved twice, in a periodic batch and in the
  final one, and after the flush at page 2 the buffer still holds both results.
\<close>

theorem saved_batches_counterexample:
  "map (map page) (saved_batches (calls (snd (the (crawl 9 demo_config demo_env init_stats)))))
     = [[1, 2], [7, 8], [1, 2, 3, 7, 8]]
   \<and> \<not> distinct (concat (saved_batches (calls (snd (the (crawl 9 demo_config demo_env init_stats))))))
   \<and> map (map page) (saved_batches (calls (snd (crawl_iterate 2 demo_config demo_env
        (crawl_start demo_config init_stats))))) = [[1, 2]]
   \<and> map page (all_data (snd (crawl_iterate 2 demo_config demo_env
        (crawl_start demo_config init_stats)))) = [1, 2]"
  by code_simp

text \<open>
  C8, as amended. When a fetched page has no records and the counter thereby reaches
  \<open>max_empty_pages\<close>, the run stops for lack of content without appending anything:
  \<^verbatim>\<open>all_data\<close> and the saved batches are as before the page, and the final batch is
  the \<^verbatim>\<open>all_data\<close> of before it (no batch when that is empty). Every result that is
  ever in \<^verbatim>\<open>all_data\<close> has at least one record.
\<close>

theorem empty_page_not_appended:
  "(page_yield c e (page_num s) = Zero_records \<and> max_empty_pages c \<le> empty_pages_count s + 1 \<longrightarrow>
      fst (crawl_iter c e s) = TERMINATED_NO_CONTENT
      \<and> empty_pages_count (snd (crawl_iter c e s)) = empty_pages_count s + 1
      \<and> all_data (snd (crawl_iter c e s)) = all_data s
      \<and> saved_batches (calls (snd (crawl_iter c e s))) = saved_batches (calls s)
      \<and> saved_batches (calls (snd (final_save e (crawl_iter c e s)))) =
          saved_batches (calls s) @ (if all_data s = [] then [] else [all_data s]))
   \<and> (\<forall>r\<in>set (all_data (snd (crawl_iterate n c e (crawl_start c st0)))).
        articles (data r) \<noteq> [] \<or> links (data r) \<noteq> [])"
proof (intro conjI impI)
  assume a: "page_yield c e (page_num s) = Zero_records \<and> max_empty_pages c \<le> empty_pages_count s + 1"
  obtain st s' where it: "crawl_iter c e s = (st, s')"
    by (cases "crawl_iter c e s")
  from crawl_iter_effect [OF it] a
  have eff: "st = TERMINATED_NO_CONTENT" "empty_pages_count s' = empty_pages_count s + 1"
    "all_data s' = all_data s" "saved_batches (calls s') = saved_batches (calls s)"
    by (simp_all add: page_effect_def)
  then show "fst (crawl_iter c e s) = TERMINATED_NO_CONTENT"
    and "empty_pages_count (snd (crawl_iter c e s)) = empty_pages_count s + 1"
    and "all_data (snd (crawl_iter c e s)) = all_data s"
    and "saved_batches (calls (snd (crawl_iter c e s))) = saved_batches (calls s)"
    by (simp_all add: it)
  obtain r s2 where fin: "final_save e (st, s') = (r, s2)"
    by (cases "final_save e (st, s')")
  from final_save_frame(5) [OF fin] eff(3,4)
  show "saved_batches (calls (snd (final_save e (crawl_iter c e s)))) =
      saved_batches (calls s) @ (if all_data s = [] then [] else [all_data s])"
    by (simp add: it fin)
next
  obtain st s' where run: "crawl_iterate n c e (crawl_start c st0) = (st, s')"
    by (cases "crawl_iterate n c e (crawl_start c st0)")
  from crawl_start_run(1) [OF run]
  have "\<forall>r\<in>set (all_data s'). articles (data r) \<noteq> [] \<or> links (data r) \<noteq> []"
    by (auto dest: produced_has_records)
  then show "\<forall>r\<in>set (all_data (snd (crawl_iterate n c e (crawl_start c st0)))).
      articles (data r) \<noteq> [] \<or> links (data r) \<noteq> []"
    by (simp add: run)
qed

theorem empty_page_not_appended_witness:
  "page_yield (demo_config\<lparr>start_page := 3, max_empty_pages := 2\<rparr>) demo_env 5 = Zero_records
   \<and> fst (crawl_iterate 3 (demo_config\<lparr>start_page := 3, max_empty_pages := 2\<rparr>) demo_env
        (crawl_start (demo_config\<lparr>start_page := 3, max_empty_pages := 2\<rparr>) init_stats))
      = TERMINATED_NO_CONTENT
   \<and> map page (all_data (snd (crawl_iterate 3 (demo_config\<lparr>start_page := 3, max_empty_pages := 2\<rparr>) demo_env
        (crawl_start (demo_config\<lparr>start_page := 3, max_empty_pages := 2\<rparr>) init_stats)))) = [3]
   \<and> links (data (hd (all_data (snd (crawl_iterate 3 (demo_config\<lparr>start_page := 3, max_empty_pages := 2\<rparr>)
        demo_env (crawl_start (demo_config\<lparr>start_page := 3, max_empty_pages := 2\<rparr>) init_stats)))))) \<noteq> []"
proof -
  let ?c = "demo_config\<lparr>start_page := 3, max_empty_pages := 2\<rparr>"
  define s where "s = snd (crawl_iterate 2 ?c demo_env (crawl_start ?c init_stats))"
  define s3 where "s3 = snd (crawl_iterate 3 ?c demo_env (crawl_start ?c init_stats))"
  have y: "page_yield ?c demo_env 5 = Zero_records"
    by code_simp
  have s: "page_num s = 5" "max_empty_pages ?c \<le> empty_pages_count s + 1" "map page (all_data s) = [3]"
    unfolding s_def by code_simp+
  have step: "crawl_iterate 3 ?c demo_env (crawl_start ?c init_stats) = crawl_iter ?c demo_env s"
    unfolding s_def by code_simp
  have arts: "articles (data (hd (all_data s3))) = []" and mem: "hd (all_data s3) \<in> set (all_data s3)"
    unfolding s3_def by code_simp+
  from empty_page_not_appended [of ?c demo_env s 3 init_stats] y s(1,2)
  have "fst (crawl_iter ?c demo_env s) = TERMINATED_NO_CONTENT"
    and "all_data (snd (crawl_iter ?c demo_env s)) = all_data s"
    and "\<forall>r\<in>set (all_data s3). articles (data r) \<noteq> [] \<or> links (data r) \<noteq> []"
    unfolding s3_def by simp_all
  with arts mem s(3) y show ?thesis
    by (auto simp: step s3_def)
qed


text \<open>
  The claim as first stated fails: started at page 3 with \<open>max_empty_pages = 2\<close>, the
  run stops at page 5, which has no records, and the final batch holds page 3 only.
\<close>

theorem empty_page_counterexample:
  "page_yield (demo_config\<lparr>start_page := 3, max_empty_pages := 2\<rparr>) demo_env 5 = Zero_records
   \<and> map_option (\<lambda>(r, s). (r, page_num s, empty_pages_count s, map page (all_data s),
          map (map page) (saved_batches (calls s))))
        (crawl 9 (demo_config\<lparr>start_page := 3, max_empty_pages := 2\<rparr>) demo_env init_stats)
      = Some (Inr TERMINATED_NO_CONTENT, 5, 2, [3], [[3]])"
  by code_simp

lemma build_url_second_field:
  "build_url beyond ''https://example.com/{column}/articles?offset={page}'' p = Inl Exception"
  by (simp add: build_url_def str_format_def)

lemma crawl_iter_format_error:
  assumes "base_url c = ''https://example.com/{column}/articles?offset={page}''"
  shows "crawl_iter c e s =
    (RUNNING, s\<lparr>stats := (stats s)\<lparr>errors := errors (stats s) + 1\<rparr>, page_num := page_num s + 1\<rparr>)"
  by (simp add: crawl_iter_def crawl_try_def assms build_url_second_field)

lemma crawl_loop_format_error:
  assumes "base_url c = ''https://example.com/{column}/articles?offset={page}''"
  shows "crawl_loop fuel c e s = None"
    and "fst (crawl_iterate fuel c e s) = RUNNING"
    and "page_num (snd (crawl_iterate fuel c e s)) = page_num s + int fuel"
  by (induction fuel arbitrary: s) (simp_all add: crawl_iter_format_error [OF assms])

text \<open>
  C7 does not hold of the code: only the path through the delay (lines 207--212)
  compares the page number with 10000000. After a failed fetch (line 167) and after
  an exception (line 220) the page number advances unchecked. Started at page
  10000000 against a network that is down, the loop goes on to fetch pages 10000001
  and 10000002. With a template that \<^verbatim>\<open>format\<close> rejects, as the one with a second
  field in \<^verbatim>\<open>configure_for_specific_site\<close>, every iteration raises and no amount of
  fuel ends the loop: after 10000000 iterations from page 1 it is still running, at
  page 10000001.
\<close>

theorem ceiling_not_checked_after_failure:
  "map_option (\<lambda>(st, s). (st, page_num s, calls s))
     (crawl_loop 9 (demo_config\<lparr>start_page := 10000000, max_retries := 0\<rparr>)
       (demo_env\<lparr>session_get := (\<lambda>p u i. RequestException)\<rparr>)
       (crawl_start (demo_config\<lparr>start_page := 10000000, max_retries := 0\<rparr>) init_stats))
     = Some (TERMINATED_NO_CONTENT, 10000002,
         [Call_fetch_page ''https://example.com/blog?page=10000000'' [Error],
          Call_fetch_page ''https://example.com/blog?page=10000001'' [Error],
          Call_fetch_page ''https://example.com/blog?page=10000002'' [Error]])
   \<and> crawl_loop fuel (demo_config\<lparr>base_url := ''https://example.com/{column}/articles?offset={page}''\<rparr>)
        demo_env (crawl_start demo_config init_stats) = None
   \<and> fst (crawl_iterate 10000000 (demo_config\<lparr>base_url := ''https://example.com/{column}/articles?offset={page}''\<rparr>)
        demo_env (crawl_start demo_config init_stats)) = RUNNING
   \<and> page_num (snd (crawl_iterate 10000000
        (demo_config\<lparr>base_url := ''https://example.com/{column}/articles?offset={page}''\<rparr>)
        demo_env (crawl_start demo_config init_stats))) = 10000001"
proof (intro conjI)
  show "map_option (\<lambda>(st, s). (st, page_num s, calls s))
     (crawl_loop 9 (demo_config\<lparr>start_page := 10000000, max_retries := 0\<rparr>)
       (demo_env\<lparr>session_get := (\<lambda>p u i. RequestException)\<rparr>)
       (crawl_start (demo_config\<lparr>start_page := 10000000, max_retries := 0\<rparr>) init_stats))
     = Some (TERMINATED_NO_CONTENT, 10000002,
         [Call_fetch_page ''https://example.com/blog?page=10000000'' [Error],
          Call_fetch_page ''https://example.com/blog?page=10000001'' [Error],
          Call_fetch_page ''https://example.com/blog?page=10000002'' [Error]])"
    by code_simp
next
  let ?c = "demo_config\<lparr>base_url := ''https://example.com/{column}/articles?offset={page}''\<rparr>"
  have b: "base_url ?c = ''https://example.com/{column}/articles?offset={page}''"
    by simp
  show "crawl_loop fuel ?c demo_env (crawl_start demo_config init_stats) = None"
    by (rule crawl_loop_format_error(1) [OF b])
  show "fst (crawl_iterate 10000000 ?c demo_env (crawl_start demo_config init_stats)) = RUNNING"
    by (rule crawl_loop_format_error(2) [OF b])
  have "page_num (snd (crawl_iterate 10000000 ?c demo_env (crawl_start demo_config init_stats)))
      = page_num (crawl_start demo_config init_stats) + int 10000000"
    by (rule crawl_loop_format_error(3) [OF b])
  also have "page_num (crawl_start demo_config init_stats) = 1"
    by (simp add: crawl_start_def demo_config_def)
  finally show "page_num (snd (crawl_iterate 10000000 ?c demo_env (crawl_start demo_config init_stats))) = 10000001"
    by simp
qed

end
